theory Spec2Isabelle
  imports Main
begin

section \<open>The loading core of cle: \<^verbatim>\<open>cle/backends/__init__.py\<close>\<close>

text \<open>
  The module is Python 2 (\<^verbatim>\<open>iteritems\<close>, \<^verbatim>\<open>long\<close>, an eager \<^verbatim>\<open>map\<close>). Its integers
  are unbounded, so addresses, offsets and sizes are \<^typ>\<open>int\<close>. Its objects are
  mutable and shared by reference: a \<^verbatim>\<open>Region\<close> object sits in the \<^verbatim>\<open>_list\<close> and in the
  \<^verbatim>\<open>_sorted_list\<close> of its \<^verbatim>\<open>Regions\<close> container at once, a \<^verbatim>\<open>Symbol\<close> is referenced
  from its owner's tables. Objects therefore live in a store, and the containers hold
  references (natural numbers) into it.
\<close>

subsection \<open>Errors\<close>

text \<open>
  \<^verbatim>\<open>CLEOperationError\<close> is what \<^verbatim>\<open>Backend.rebase\<close> raises (its message carries the linked
  and the mapped base); \<^verbatim>\<open>ValueError\<close> is what Python's \<^verbatim>\<open>max\<close> raises on an empty
  sequence.
\<close>

datatype error = CLEOperationError int int | ValueError

subsection \<open>Region, Segment, Section\<close>

text \<open>
  \<^verbatim>\<open>Segment\<close> adds nothing to \<^verbatim>\<open>Region\<close>; \<^verbatim>\<open>Section\<close> adds a name and passes its one size
  as both \<^verbatim>\<open>filesize\<close> and \<^verbatim>\<open>memsize\<close>.
\<close>

record Region =
  offset :: int
  vaddr :: int
  filesize :: int
  memsize :: int
  sec_name :: "string option"

definition Region_init :: "int \<Rightarrow> int \<Rightarrow> int \<Rightarrow> int \<Rightarrow> Region" where
  "Region_init off va fsz msz =
     \<lparr>offset = off, vaddr = va, filesize = fsz, memsize = msz, sec_name = None\<rparr>"

definition Section_init :: "string \<Rightarrow> int \<Rightarrow> int \<Rightarrow> int \<Rightarrow> Region" where
  "Section_init nm off va sz = (Region_init off va sz sz)\<lparr>sec_name := Some nm\<rparr>"

text \<open>\<^verbatim>\<open>self.vaddr += delta\<close>, on one object.\<close>

definition Region_rebase :: "Region \<Rightarrow> int \<Rightarrow> Region" where
  "Region_rebase r delta = r\<lparr>vaddr := vaddr r + delta\<rparr>"

definition Region_contains_addr :: "Region \<Rightarrow> int \<Rightarrow> bool" where
  "Region_contains_addr r a = (vaddr r \<le> a \<and> a < vaddr r + memsize r)"

definition Region_contains_offset :: "Region \<Rightarrow> int \<Rightarrow> bool" where
  "Region_contains_offset r off = (offset r \<le> off \<and> off < offset r + filesize r)"

definition Region_addr_to_offset :: "Region \<Rightarrow> int \<Rightarrow> int option" where
  "Region_addr_to_offset r a =
     (let off = a - vaddr r + offset r
      in if \<not> Region_contains_offset r off then None else Some off)"

definition Region_offset_to_addr :: "Region \<Rightarrow> int \<Rightarrow> int option" where
  "Region_offset_to_addr r off =
     (let a = off - offset r + vaddr r
      in if \<not> Region_contains_addr r a then None else Some a)"

definition Region_max_addr :: "Region \<Rightarrow> int" where
  "Region_max_addr r = vaddr r + memsize r - 1"

definition Region_min_addr :: "Region \<Rightarrow> int" where
  "Region_min_addr r = vaddr r"

definition Region_max_offset :: "Region \<Rightarrow> int" where
  "Region_max_offset r = offset r + filesize r - 1"

definition Region_min_offset :: "Region \<Rightarrow> int" where
  "Region_min_offset r = offset r"

subsection \<open>The bisection helpers of \<^verbatim>\<open>cle.utils\<close>\<close>

text \<open>
  Modelled from the spec: \<^verbatim>\<open>key_bisect_find\<close> (module \<^verbatim>\<open>cle/utils.py\<close>, which is not among
  the sources). The spec of \<^verbatim>\<open>find_containing\<close> has it "binary-search the vaddr-ordered
  sequence for the first region whose \<^verbatim>\<open>vaddr+mem_size > addr\<close> (lower-bound on
  end-address)": a bisection between \<open>lo\<close> and \<open>hi\<close> that moves right past every probed
  element whose key is at most the item's key. The caller's \<^verbatim>\<open>keyfunc\<close> is the identity on
  the integer item, so the item is passed as its key. The probe \<open>lst ! mid\<close> is in range:
  \<open>lo \<le> mid < hi \<le> length lst\<close>.
\<close>

function key_bisect_find_loop :: "'a list \<Rightarrow> int \<Rightarrow> ('a \<Rightarrow> int) \<Rightarrow> nat \<Rightarrow> nat \<Rightarrow> nat" where
  "key_bisect_find_loop lst item keyfunc lo hi =
     (if lo < hi
      then (let mid = (lo + hi) div 2
            in if keyfunc (lst ! mid) \<le> item
               then key_bisect_find_loop lst item keyfunc (mid + 1) hi
               else key_bisect_find_loop lst item keyfunc lo mid)
      else lo)"
  by pat_completeness auto
termination
  by (relation "measure (\<lambda>(lst, item, keyfunc, lo, hi). hi - lo)") auto

declare key_bisect_find_loop.simps [simp del]

definition key_bisect_find :: "'a list \<Rightarrow> int \<Rightarrow> ('a \<Rightarrow> int) \<Rightarrow> nat" where
  "key_bisect_find lst item keyfunc = key_bisect_find_loop lst item keyfunc 0 (length lst)"

text \<open>
  Modelled from the spec: \<^verbatim>\<open>key_bisect_insort_left\<close> (module \<^verbatim>\<open>cle/utils.py\<close>, which is not
  among the sources). The spec of \<^verbatim>\<open>append\<close> has an "O(log n) insertion into the
  vaddr-ordered sequence (sorted insert keyed by \<^verbatim>\<open>vaddr\<close>)"; the name says the insertion
  point is the leftmost one: a bisection that moves right past every probed element whose
  key is less than the item's key, and an insertion there.
\<close>

function key_bisect_left_loop :: "'a list \<Rightarrow> int \<Rightarrow> ('a \<Rightarrow> int) \<Rightarrow> nat \<Rightarrow> nat \<Rightarrow> nat" where
  "key_bisect_left_loop lst k keyfunc lo hi =
     (if lo < hi
      then (let mid = (lo + hi) div 2
            in if keyfunc (lst ! mid) < k
               then key_bisect_left_loop lst k keyfunc (mid + 1) hi
               else key_bisect_left_loop lst k keyfunc lo mid)
      else lo)"
  by pat_completeness auto
termination
  by (relation "measure (\<lambda>(lst, k, keyfunc, lo, hi). hi - lo)") auto

declare key_bisect_left_loop.simps [simp del]

definition key_bisect_insort_left :: "'a list \<Rightarrow> 'a \<Rightarrow> ('a \<Rightarrow> int) \<Rightarrow> 'a list" where
  "key_bisect_insort_left lst item keyfunc =
     (let pos = key_bisect_left_loop lst (keyfunc item) keyfunc 0 (length lst)
      in take pos lst @ item # drop pos lst)"

subsection \<open>Regions: the container\<close>

text \<open>
  Both lists hold references to the same \<^verbatim>\<open>Region\<close> objects; the store of the objects is
  passed to every method that reads them. \<^verbatim>\<open>__len__\<close> is the length of \<^verbatim>\<open>_list\<close>, which is
  also the container's truth value; iterating the container walks \<^verbatim>\<open>_list\<close> through
  \<^verbatim>\<open>__getitem__\<close>.
\<close>

record Regions =
  priv_list :: "nat list"
  priv_sorted_list :: "nat list"

text \<open>\<^verbatim>\<open>sorted(lst, key=lambda x: x.vaddr)\<close>: a stable sort.\<close>

definition Regions_make_sorted :: "(nat \<Rightarrow> Region) \<Rightarrow> nat list \<Rightarrow> nat list" where
  "Regions_make_sorted h lst = sort_key (\<lambda>x. vaddr (h x)) lst"

definition Regions_init :: "(nat \<Rightarrow> Region) \<Rightarrow> nat list option \<Rightarrow> Regions" where
  "Regions_init h lst =
     (let l = (case lst of None \<Rightarrow> [] | Some v \<Rightarrow> v)
      in \<lparr>priv_list = l,
          priv_sorted_list = (if l \<noteq> [] then Regions_make_sorted h l else [])\<rparr>)"

definition Regions_len :: "Regions \<Rightarrow> nat" where
  "Regions_len rs = length (priv_list rs)"

definition Regions_bool :: "Regions \<Rightarrow> bool" where
  "Regions_bool rs = (Regions_len rs \<noteq> 0)"

definition Regions_iter :: "Regions \<Rightarrow> nat list" where
  "Regions_iter rs = priv_list rs"

text \<open>
  \<^verbatim>\<open>map(lambda x: x._rebase(delta), self._list)\<close>: one \<^verbatim>\<open>_rebase\<close> for every entry of
  \<^verbatim>\<open>_list\<close>, in order, each on the object the entry refers to.
\<close>

definition Regions_rebase :: "(nat \<Rightarrow> Region) \<Rightarrow> Regions \<Rightarrow> int \<Rightarrow> (nat \<Rightarrow> Region)" where
  "Regions_rebase h rs delta = fold (\<lambda>x g. g(x := Region_rebase (g x) delta)) (priv_list rs) h"

definition Regions_append :: "(nat \<Rightarrow> Region) \<Rightarrow> Regions \<Rightarrow> nat \<Rightarrow> Regions" where
  "Regions_append h rs region =
     \<lparr>priv_list = priv_list rs @ [region],
      priv_sorted_list = key_bisect_insort_left (priv_sorted_list rs) region (\<lambda>r. vaddr (h r))\<rparr>"

definition Regions_find_region_containing :: "(nat \<Rightarrow> Region) \<Rightarrow> Regions \<Rightarrow> int \<Rightarrow> nat option" where
  "Regions_find_region_containing h rs a =
     (let pos = key_bisect_find (priv_sorted_list rs) a (\<lambda>r. vaddr (h r) + memsize (h r))
      in if pos \<ge> length (priv_sorted_list rs) then None
         else (let region = priv_sorted_list rs ! pos
               in if Region_contains_addr (h region) a then Some region else None))"

text \<open>
  The ground truth of a lookup: the first entry of \<^verbatim>\<open>_list\<close> whose region contains the
  address.
\<close>

definition linear_scan :: "(nat \<Rightarrow> Region) \<Rightarrow> Regions \<Rightarrow> int \<Rightarrow> nat option" where
  "linear_scan h rs a = find (\<lambda>r. Region_contains_addr (h r) a) (priv_list rs)"

text \<open>
  The regions of the container are pairwise non-overlapping: of any two different region
  objects, one ends (exclusively) at or before the start of the other.
\<close>

definition non_overlapping :: "(nat \<Rightarrow> Region) \<Rightarrow> Regions \<Rightarrow> bool" where
  "non_overlapping h rs =
     list_all (\<lambda>r. list_all (\<lambda>q. r = q \<or>
                  vaddr (h r) + memsize (h r) \<le> vaddr (h q) \<or>
                  vaddr (h q) + memsize (h q) \<le> vaddr (h r)) (priv_list rs)) (priv_list rs)"

text \<open>
  What the constructor, \<^verbatim>\<open>append\<close> and \<^verbatim>\<open>_rebase\<close> keep of the two lists: the sorted list
  is ordered by \<^verbatim>\<open>vaddr\<close> and holds the regions of \<^verbatim>\<open>_list\<close>.
\<close>

definition sorted_by_vaddr :: "(nat \<Rightarrow> Region) \<Rightarrow> Regions \<Rightarrow> bool" where
  "sorted_by_vaddr h rs =
     (sorted (map (\<lambda>r. vaddr (h r)) (priv_sorted_list rs)) \<and>
      set (priv_sorted_list rs) = set (priv_list rs))"

text \<open>Every region of the container covers at least one address.\<close>

definition nonempty_regions :: "(nat \<Rightarrow> Region) \<Rightarrow> Regions \<Rightarrow> bool" where
  "nonempty_regions h rs = list_all (\<lambda>r. 0 < memsize (h r)) (priv_list rs)"

subsection \<open>Symbol\<close>

text \<open>
  \<^verbatim>\<open>owner_obj\<close> refers to a \<^verbatim>\<open>Backend\<close> object, \<^verbatim>\<open>resolvedby\<close> to the object handed to
  \<^verbatim>\<open>resolve\<close> (\<^verbatim>\<open>None\<close> until then). \<^verbatim>\<open>type\<close> is one of the integer constants
  \<^verbatim>\<open>TYPE_OTHER = 0\<close> .. \<^verbatim>\<open>TYPE_SECTION = 4\<close>.
\<close>

record Symbol =
  owner_obj :: nat
  sym_name :: string
  addr :: int
  sym_size :: int
  sym_type :: int
  resolved :: bool
  resolvedby :: "nat option"

subsection \<open>Backend\<close>

text \<open>
  The attributes the modelled methods read or write. \<^verbatim>\<open>_symbols_by_addr\<close> is a dictionary
  from stored symbol addresses to \<^verbatim>\<open>Symbol\<close> objects, \<^verbatim>\<open>resolved_imports\<close> a list of
  \<^verbatim>\<open>Symbol\<close> objects.
\<close>

record Backend =
  priv_segments :: Regions
  priv_sections :: Regions
  priv_symbols_by_addr :: "int \<rightharpoonup> nat"
  resolved_imports :: "nat list"
  mapped_base :: int
  linked_base :: int
  priv_is_mapped :: bool

text \<open>
  \<^verbatim>\<open>Backend.__init__\<close>: two empty containers, an empty table, an empty list, both bases
  0, and \<^verbatim>\<open>_is_mapped = False\<close> under the comment "should be set inside
  \<^verbatim>\<open>cle.Loader.add_object\<close>".
\<close>

definition Backend_init :: Backend where
  "Backend_init =
     \<lparr>priv_segments = Regions_init (\<lambda>_. Region_init 0 0 0 0) None,
      priv_sections = Regions_init (\<lambda>_. Region_init 0 0 0 0) None,
      priv_symbols_by_addr = Map.empty,
      resolved_imports = [],
      mapped_base = 0,
      linked_base = 0,
      priv_is_mapped = False\<rparr>"

definition segments :: "Backend \<Rightarrow> Regions" where
  "segments bk = priv_segments bk"

definition sections :: "Backend \<Rightarrow> Regions" where
  "sections bk = priv_sections bk"

definition image_base_delta :: "Backend \<Rightarrow> int" where
  "image_base_delta bk = mapped_base bk - linked_base bk"

text \<open>
  Modelled from the spec: the address translator \<^verbatim>\<open>AT\<close> (module
  \<^verbatim>\<open>cle/address_translator.py\<close>, which is not among the sources). The spec's
  AddressSpaceTranslator has \<^verbatim>\<open>to_mapped(linked_addr, image)\<close> =
  \<^verbatim>\<open>linked_addr + image.base_delta\<close> and \<^verbatim>\<open>to_linked(mapped_addr, image)\<close> =
  \<^verbatim>\<open>mapped_addr - image.base_delta\<close>; \<^verbatim>\<open>AT.from_rva(x, owner).to_mva()\<close> is the former,
  applied to a stored address.
\<close>

definition to_mapped :: "int \<Rightarrow> Backend \<Rightarrow> int" where
  "to_mapped linked_addr img = linked_addr + image_base_delta img"

definition to_linked :: "int \<Rightarrow> Backend \<Rightarrow> int" where
  "to_linked mapped_addr img = mapped_addr - image_base_delta img"

text \<open>
  \<^verbatim>\<open>{AT.from_rva(x, self).to_mva(): self._symbols_by_addr[x] for x in self._symbols_by_addr}\<close>:
  the entry stored under \<open>x\<close> is exposed under the translation of \<open>x\<close>. The translation
  is one-to-one, so the new dictionary, read at a key \<open>k\<close>, holds what the stored one
  holds at the one \<open>x\<close> that translates to \<open>k\<close>.
\<close>

definition symbols_by_addr :: "Backend \<Rightarrow> (int \<rightharpoonup> nat)" where
  "symbols_by_addr bk = (\<lambda>k. priv_symbols_by_addr bk (to_linked k bk))"

definition Backend_min_addr :: "Backend \<Rightarrow> int" where
  "Backend_min_addr bk = mapped_base bk"

text \<open>Python's \<^verbatim>\<open>max\<close> of a sequence.\<close>

fun py_max :: "int list \<Rightarrow> error + int" where
  "py_max [] = Inl ValueError"
| "py_max (x # xs) = Inr (fold max xs x)"

text \<open>
  \<^verbatim>\<open>self.segments or self.sections\<close> is the segments container when it is non-empty, the
  sections container otherwise.
\<close>

definition segments_or_sections :: "Backend \<Rightarrow> Regions" where
  "segments_or_sections bk = (if Regions_bool (segments bk) then segments bk else sections bk)"

definition Backend_max_addr :: "(nat \<Rightarrow> Region) \<Rightarrow> Backend \<Rightarrow> error + int" where
  "Backend_max_addr h bk =
     (if Regions_bool (segments bk) \<or> Regions_bool (sections bk)
      then py_max (map (\<lambda>x. Region_max_addr (h x)) (Regions_iter (segments_or_sections bk)))
      else Inr (mapped_base bk))"

definition find_segment_containing :: "(nat \<Rightarrow> Region) \<Rightarrow> Backend \<Rightarrow> int \<Rightarrow> nat option" where
  "find_segment_containing h bk a = Regions_find_region_containing h (segments bk) a"

definition find_section_containing :: "(nat \<Rightarrow> Region) \<Rightarrow> Backend \<Rightarrow> int \<Rightarrow> nat option" where
  "find_section_containing h bk a = Regions_find_region_containing h (sections bk) a"

definition find_loadable_containing :: "(nat \<Rightarrow> Region) \<Rightarrow> Backend \<Rightarrow> int \<Rightarrow> nat option" where
  "find_loadable_containing h bk a =
     (if Regions_bool (segments bk) then find_segment_containing h bk a
      else find_section_containing h bk a)"

definition Backend_contains_addr :: "(nat \<Rightarrow> Region) \<Rightarrow> Backend \<Rightarrow> int \<Rightarrow> bool" where
  "Backend_contains_addr h bk a = (find_loadable_containing h bk a \<noteq> None)"

definition Backend_addr_to_offset :: "(nat \<Rightarrow> Region) \<Rightarrow> Backend \<Rightarrow> int \<Rightarrow> int option" where
  "Backend_addr_to_offset h bk a =
     (case find_loadable_containing h bk a of
        Some loadable \<Rightarrow> Region_addr_to_offset (h loadable) a
      | None \<Rightarrow> None)"

text \<open>
  The loop of \<^verbatim>\<open>Backend.offset_to_addr\<close>: the first region of the walk that contains the
  offset decides; the end of the walk falls off the function, which returns \<^verbatim>\<open>None\<close>.
\<close>

fun offset_scan :: "(nat \<Rightarrow> Region) \<Rightarrow> nat list \<Rightarrow> int \<Rightarrow> int option" where
  "offset_scan h [] off = None"
| "offset_scan h (s # ss) off =
     (if Region_contains_offset (h s) off then Region_offset_to_addr (h s) off
      else offset_scan h ss off)"

definition Backend_offset_to_addr :: "(nat \<Rightarrow> Region) \<Rightarrow> Backend \<Rightarrow> int \<Rightarrow> int option" where
  "Backend_offset_to_addr h bk off =
     (if Regions_bool (segments bk) then offset_scan h (Regions_iter (segments bk)) off
      else offset_scan h (Regions_iter (sections bk)) off)"

subsection \<open>The store, and the methods that change it\<close>

text \<open>
  The objects of each class, by reference; the references below a counter are the objects
  created so far.
\<close>

record state =
  regions :: "nat \<Rightarrow> Region"
  symbols :: "nat \<Rightarrow> Symbol"
  backends :: "nat \<Rightarrow> Backend"
  next_region :: nat
  next_symbol :: nat
  next_backend :: nat

definition init_state :: state where
  "init_state =
     \<lparr>regions = (\<lambda>_. Region_init 0 0 0 0),
      symbols = (\<lambda>_. \<lparr>owner_obj = 0, sym_name = [], addr = 0, sym_size = 0, sym_type = 0,
                       resolved = False, resolvedby = None\<rparr>),
      backends = (\<lambda>_. Backend_init),
      next_region = 0,
      next_symbol = 0,
      next_backend = 0\<rparr>"

text \<open>\<^verbatim>\<open>Backend(...)\<close>: a new object, initialised by \<^verbatim>\<open>__init__\<close>.\<close>

definition Backend_new :: "state \<Rightarrow> nat \<times> state" where
  "Backend_new st =
     (next_backend st,
      st\<lparr>backends := (backends st)(next_backend st := Backend_init),
         next_backend := next_backend st + 1\<rparr>)"

text \<open>\<^verbatim>\<open>Region(offset, vaddr, filesize, memsize)\<close>, \<^verbatim>\<open>Segment(...)\<close> or \<^verbatim>\<open>Section(...)\<close>: a new object.\<close>

definition Region_new :: "state \<Rightarrow> Region \<Rightarrow> nat \<times> state" where
  "Region_new st r =
     (next_region st,
      st\<lparr>regions := (regions st)(next_region st := r),
         next_region := next_region st + 1\<rparr>)"

text \<open>
  \<^verbatim>\<open>Symbol.__init__\<close>. The address is an integer here, so the first disjunct of the guard
  (\<^verbatim>\<open>claripy and isinstance(self.addr, claripy.ast.Base)\<close>, a symbolic address) is false
  and the guard is \<^verbatim>\<open>self.addr != 0\<close>.
\<close>

definition Symbol_init :: "state \<Rightarrow> nat \<Rightarrow> string \<Rightarrow> int \<Rightarrow> int \<Rightarrow> int \<Rightarrow> nat \<times> state" where
  "Symbol_init st owner nm a sz ty =
     (let self = next_symbol st;
          st1 = st\<lparr>symbols := (symbols st)(self :=
                     \<lparr>owner_obj = owner, sym_name = nm, addr = a, sym_size = sz, sym_type = ty,
                      resolved = False, resolvedby = None\<rparr>),
                   next_symbol := self + 1\<rparr>
      in (self,
          if a \<noteq> 0
          then st1\<lparr>backends := (backends st1)(owner :=
                    (backends st1 owner)\<lparr>priv_symbols_by_addr :=
                       (priv_symbols_by_addr (backends st1 owner))(a \<mapsto> self)\<rparr>)\<rparr>
          else st1))"

text \<open>\<^verbatim>\<open>Symbol.resolve\<close>: two attribute writes and an append to the owner's list.\<close>

definition Symbol_resolve :: "state \<Rightarrow> nat \<Rightarrow> nat \<Rightarrow> state" where
  "Symbol_resolve st self obj =
     (let st1 = st\<lparr>symbols := (symbols st)(self := (symbols st self)\<lparr>resolved := True\<rparr>)\<rparr>;
          st2 = st1\<lparr>symbols := (symbols st1)(self := (symbols st1 self)\<lparr>resolvedby := Some obj\<rparr>)\<rparr>;
          owner = owner_obj (symbols st2 self)
      in st2\<lparr>backends := (backends st2)(owner :=
                 (backends st2 owner)\<lparr>resolved_imports :=
                    resolved_imports (backends st2 owner) @ [self]\<rparr>)\<rparr>)"

definition Symbol_rebased_addr :: "state \<Rightarrow> nat \<Rightarrow> int" where
  "Symbol_rebased_addr st self =
     to_mapped (addr (symbols st self)) (backends st (owner_obj (symbols st self)))"

text \<open>
  \<^verbatim>\<open>Backend.rebase\<close>. The raise is the first statement, so the store it leaves is the one
  it found; the result pairs the exception, if any, with the store after the call.
\<close>

definition Backend_rebase :: "state \<Rightarrow> nat \<Rightarrow> error option \<times> state" where
  "Backend_rebase st self =
     (let bk = backends st self
      in if priv_is_mapped bk
         then (Some (CLEOperationError (linked_base bk) (mapped_base bk)), st)
         else (let st1 = (if Regions_bool (sections bk)
                          then st\<lparr>regions := Regions_rebase (regions st) (sections bk) (image_base_delta bk)\<rparr>
                          else st);
                   st2 = (if Regions_bool (segments bk)
                          then st1\<lparr>regions := Regions_rebase (regions st1) (segments bk) (image_base_delta bk)\<rparr>
                          else st1)
               in (None, st2)))"

text \<open>\<^verbatim>\<open>obj.segments.append(region)\<close> and \<^verbatim>\<open>obj.sections.append(region)\<close>.\<close>

definition append_segment :: "state \<Rightarrow> nat \<Rightarrow> nat \<Rightarrow> state" where
  "append_segment st b r =
     st\<lparr>backends := (backends st)(b :=
          (backends st b)\<lparr>priv_segments := Regions_append (regions st) (segments (backends st b)) r\<rparr>)\<rparr>"

definition append_section :: "state \<Rightarrow> nat \<Rightarrow> nat \<Rightarrow> state" where
  "append_section st b r =
     st\<lparr>backends := (backends st)(b :=
          (backends st b)\<lparr>priv_sections := Regions_append (regions st) (sections (backends st b)) r\<rparr>)\<rparr>"

text \<open>
  The segments and sections setters, given a list: \<^verbatim>\<open>self._segments = Regions(lst=v)\<close>.
\<close>

definition set_segments :: "state \<Rightarrow> nat \<Rightarrow> nat list \<Rightarrow> state" where
  "set_segments st b v =
     st\<lparr>backends := (backends st)(b :=
          (backends st b)\<lparr>priv_segments := Regions_init (regions st) (Some v)\<rparr>)\<rparr>"

definition set_sections :: "state \<Rightarrow> nat \<Rightarrow> nat list \<Rightarrow> state" where
  "set_sections st b v =
     st\<lparr>backends := (backends st)(b :=
          (backends st b)\<lparr>priv_sections := Regions_init (regions st) (Some v)\<rparr>)\<rparr>"

text \<open>
  What the loader writes: the two bases ("These are set by cle") and the flag ("should be
  set inside \<^verbatim>\<open>cle.Loader.add_object\<close>").
\<close>

definition set_bases :: "state \<Rightarrow> nat \<Rightarrow> int \<Rightarrow> int \<Rightarrow> state" where
  "set_bases st b lb mb =
     st\<lparr>backends := (backends st)(b := (backends st b)\<lparr>mapped_base := mb, linked_base := lb\<rparr>)\<rparr>"

definition set_is_mapped :: "state \<Rightarrow> nat \<Rightarrow> bool \<Rightarrow> state" where
  "set_is_mapped st b v =
     st\<lparr>backends := (backends st)(b := (backends st b)\<lparr>priv_is_mapped := v\<rparr>)\<rparr>"

subsection \<open>Runs of the module\<close>

text \<open>
  A client of the module creates objects and calls methods on objects it holds. A call
  names its objects by reference; a reference to an object that was never created cannot
  occur in a Python program, and a run skips such a call.
\<close>

datatype call =
    NewBackend
  | NewRegion Region
  | NewSymbol nat string int int int
  | Resolve nat nat
  | Rebase nat
  | AppendSegment nat nat
  | AppendSection nat nat
  | SetSegments nat "nat list"
  | SetSections nat "nat list"
  | SetBases nat int int
  | SetIsMapped nat bool

fun live :: "state \<Rightarrow> call \<Rightarrow> bool" where
  "live st NewBackend = True"
| "live st (NewRegion r) = True"
| "live st (NewSymbol owner nm a sz ty) = (owner < next_backend st)"
| "live st (Resolve s obj) = (s < next_symbol st \<and> obj < next_symbol st)"
| "live st (Rebase b) = (b < next_backend st)"
| "live st (AppendSegment b r) = (b < next_backend st \<and> r < next_region st)"
| "live st (AppendSection b r) = (b < next_backend st \<and> r < next_region st)"
| "live st (SetSegments b v) = (b < next_backend st \<and> list_all (\<lambda>r. r < next_region st) v)"
| "live st (SetSections b v) = (b < next_backend st \<and> list_all (\<lambda>r. r < next_region st) v)"
| "live st (SetBases b lb mb) = (b < next_backend st)"
| "live st (SetIsMapped b v) = (b < next_backend st)"

fun perform :: "state \<Rightarrow> call \<Rightarrow> state" where
  "perform st NewBackend = snd (Backend_new st)"
| "perform st (NewRegion r) = snd (Region_new st r)"
| "perform st (NewSymbol owner nm a sz ty) = snd (Symbol_init st owner nm a sz ty)"
| "perform st (Resolve s obj) = Symbol_resolve st s obj"
| "perform st (Rebase b) = snd (Backend_rebase st b)"
| "perform st (AppendSegment b r) = append_segment st b r"
| "perform st (AppendSection b r) = append_section st b r"
| "perform st (SetSegments b v) = set_segments st b v"
| "perform st (SetSections b v) = set_sections st b v"
| "perform st (SetBases b lb mb) = set_bases st b lb mb"
| "perform st (SetIsMapped b v) = set_is_mapped st b v"

definition step :: "call \<Rightarrow> state \<Rightarrow> state" where
  "step c st = (if live st c then perform st c else st)"

definition run :: "call list \<Rightarrow> state" where
  "run cs = fold step cs init_state"

text \<open>\<^verbatim>\<open>resolve\<close> called once for each object of a list, in order, on one symbol.\<close>

definition resolve_each :: "state \<Rightarrow> nat \<Rightarrow> nat list \<Rightarrow> state" where
  "resolve_each st self objs = fold (\<lambda>obj s. Symbol_resolve s self obj) objs st"

subsection \<open>What every run maintains\<close>

text \<open>
  Every symbol in a \<^verbatim>\<open>resolved_imports\<close> list has been created and is marked resolved, and
  every symbol in a \<^verbatim>\<open>_symbols_by_addr\<close> table has been created; a symbol in a table sits
  under its own stored address, in the table of its owner.
\<close>

definition store_inv :: "state \<Rightarrow> bool" where
  "store_inv st =
     ((\<forall>b s. s \<in> set (resolved_imports (backends st b)) \<longrightarrow>
              s < next_symbol st \<and> resolved (symbols st s)) \<and>
      (\<forall>b k s. priv_symbols_by_addr (backends st b) k = Some s \<longrightarrow> s < next_symbol st))"

definition table_inv :: "state \<Rightarrow> bool" where
  "table_inv st =
     (\<forall>b k s. priv_symbols_by_addr (backends st b) k = Some s \<longrightarrow>
        addr (symbols st s) = k \<and> owner_obj (symbols st s) = b)"

text \<open>
  A run for the examples: two images; an import stub \<^verbatim>\<open>puts\<close> at the sentinel address 0
  in the first, the function \<^verbatim>\<open>puts\<close> at \<^verbatim>\<open>0x401020\<close> in the second.
\<close>

definition import_run :: "call list" where
  "import_run = [NewBackend, NewBackend,
                 NewSymbol 0 ''puts'' 0 0 2,
                 NewSymbol 1 ''puts'' 0x401020 8 2]"

text \<open>
  One image with a segment of \<^verbatim>\<open>0x100\<close> bytes at \<^verbatim>\<open>0x1000\<close> and a section \<^verbatim>\<open>.data\<close> of
  \<^verbatim>\<open>0x10\<close> bytes at \<^verbatim>\<open>0x5000\<close>, linked at \<^verbatim>\<open>0x400000\<close> and placed at
  \<^verbatim>\<open>0x7f0000000000\<close>; then the same image after the loader has rebased it and set the
  flag; then the image with a symbol \<^verbatim>\<open>main\<close>.
\<close>

definition layout_run :: "call list" where
  "layout_run = [NewBackend,
                 NewRegion (Region_init 0 0x1000 0x100 0x100),
                 NewRegion (Section_init ''.data'' 0x200 0x5000 0x10),
                 AppendSegment 0 0,
                 AppendSection 0 1,
                 SetBases 0 0x400000 0x7f0000000000]"

definition mapped_run :: "call list" where
  "mapped_run = layout_run @ [Rebase 0, SetIsMapped 0 True]"

definition loaded_run :: "call list" where
  "loaded_run = layout_run @ [NewSymbol 0 ''main'' 0x401020 16 2]"

text \<open>
  One image with a section \<^verbatim>\<open>.text\<close> of \<^verbatim>\<open>0x100\<close> bytes at \<^verbatim>\<open>0x1000\<close>, an empty section
  at the same address and a section \<^verbatim>\<open>.data\<close> of \<^verbatim>\<open>0x100\<close> bytes at \<^verbatim>\<open>0x2000\<close>: set
  as a list, and appended one by one with the empty section first.
\<close>

definition empty_section_run :: "call list" where
  "empty_section_run = [NewBackend,
                        NewRegion (Section_init ''.text'' 0 0x1000 0x100),
                        NewRegion (Section_init ''.empty'' 0x100 0x1000 0),
                        NewRegion (Section_init ''.data'' 0x100 0x2000 0x100),
                        SetSections 0 [0, 1, 2]]"

definition empty_section_append_run :: "call list" where
  "empty_section_append_run = [NewBackend,
                        NewRegion (Section_init ''.empty'' 0 0x1000 0),
                        NewRegion (Section_init ''.text'' 0 0x1000 0x100),
                        NewRegion (Section_init ''.data'' 0x100 0x2000 0x100),
                        AppendSection 0 0,
                        AppendSection 0 1,
                        AppendSection 0 2]"

section \<open>Properties\<close>

subsection \<open>Region: translation between addresses and offsets\<close>

text \<open>
  C4. Round trip: for a region with \<open>filesize \<le> memsize\<close> and an address \<open>a\<close>, when
  \<^verbatim>\<open>addr_to_offset(a)\<close> returns an offset \<open>off\<close> (not \<^verbatim>\<open>None\<close>), \<^verbatim>\<open>offset_to_addr(off)\<close>
  returns \<open>a\<close>.
\<close>

theorem Region_roundtrip:
  assumes "filesize r \<le> memsize r" and "Region_addr_to_offset r a = Some off"
  shows "Region_offset_to_addr r off = Some a"
  using assms
  by (auto simp: Region_addr_to_offset_def Region_offset_to_addr_def Region_contains_offset_def
      Region_contains_addr_def Let_def split: if_splits)

theorem Region_roundtrip_witness:
  "filesize (Region_init 0x200 0x2000 0x50 0x80) \<le> memsize (Region_init 0x200 0x2000 0x50 0x80)
   \<and> Region_addr_to_offset (Region_init 0x200 0x2000 0x50 0x80) 0x2049 = Some 0x249
   \<and> Region_offset_to_addr (Region_init 0x200 0x2000 0x50 0x80) 0x249 = Some 0x2049"
proof -
  let ?r = "Region_init 0x200 0x2000 0x50 0x80"
  have a: "filesize ?r \<le> memsize ?r"
    by (simp add: Region_init_def)
  have b: "Region_addr_to_offset ?r 0x2049 = Some 0x249"
    by (simp add: Region_init_def Region_addr_to_offset_def Region_contains_offset_def)
  from Region_roundtrip [OF a b] a b show ?thesis by simp
qed

text \<open>
  C6. Rebase is a pure translation: when a region contains the address \<open>a\<close>, then after
  \<^verbatim>\<open>_rebase(d)\<close> it contains \<open>a + d\<close>, and \<^verbatim>\<open>addr_to_offset(a + d)\<close> is what
  \<^verbatim>\<open>addr_to_offset(a)\<close> was before the rebase.
\<close>

theorem Region_rebase_translation:
  assumes "Region_contains_addr r a"
  shows "Region_contains_addr (Region_rebase r d) (a + d) \<and>
         Region_addr_to_offset (Region_rebase r d) (a + d) = Region_addr_to_offset r a"
  using assms
  by (simp add: Region_contains_addr_def Region_rebase_def Region_addr_to_offset_def
      Region_contains_offset_def)

theorem Region_rebase_translation_witness:
  "Region_contains_addr (Region_init 0 0x1000 0x100 0x100) 0x1050
   \<and> Region_contains_addr (Region_rebase (Region_init 0 0x1000 0x100 0x100) 0x400000) 0x401050
   \<and> Region_addr_to_offset (Region_rebase (Region_init 0 0x1000 0x100 0x100) 0x400000) 0x401050
       = Some 0x50
   \<and> Region_addr_to_offset (Region_init 0 0x1000 0x100 0x100) 0x1050 = Some 0x50"
proof -
  let ?r = "Region_init 0 0x1000 0x100 0x100"
  have a: "Region_contains_addr ?r 0x1050"
    by (simp add: Region_init_def Region_contains_addr_def)
  have b: "Region_addr_to_offset ?r 0x1050 = Some 0x50"
    by (simp add: Region_init_def Region_addr_to_offset_def Region_contains_offset_def)
  from Region_rebase_translation [OF a, of "0x400000"] a b show ?thesis by simp
qed

subsection \<open>Runs keep the store well formed\<close>

lemma store_inv_init: "store_inv init_state"
  by (simp add: store_inv_def init_state_def Backend_init_def)

lemma Backend_rebase_frame:
  "symbols (snd (Backend_rebase st b)) = symbols st"
  "backends (snd (Backend_rebase st b)) = backends st"
  "next_symbol (snd (Backend_rebase st b)) = next_symbol st"
  by (simp_all add: Backend_rebase_def Let_def)

lemma store_inv_perform: "store_inv st \<Longrightarrow> live st c \<Longrightarrow> store_inv (perform st c)"
proof (cases c)
  case NewBackend
  assume "store_inv st"
  then show ?thesis using NewBackend
    by (auto simp: store_inv_def Backend_new_def Backend_init_def)
next
  case (NewRegion r)
  assume "store_inv st"
  then show ?thesis using NewRegion
    by (auto simp: store_inv_def Region_new_def)
next
  case (NewSymbol owner nm a sz ty)
  assume "store_inv st"
  then show ?thesis using NewSymbol
    by (fastforce simp: store_inv_def Symbol_init_def Let_def split: if_splits)
next
  case (Resolve s obj)
  assume "store_inv st" "live st c"
  then show ?thesis using Resolve
    by (fastforce simp: store_inv_def Symbol_resolve_def Let_def split: if_splits)
next
  case (Rebase b)
  assume "store_inv st"
  then show ?thesis using Rebase
    by (simp add: store_inv_def Backend_rebase_frame)
next
  case (AppendSegment b r)
  assume "store_inv st"
  then show ?thesis using AppendSegment
    by (auto simp: store_inv_def append_segment_def)
next
  case (AppendSection b r)
  assume "store_inv st"
  then show ?thesis using AppendSection
    by (auto simp: store_inv_def append_section_def)
next
  case (SetSegments b v)
  assume "store_inv st"
  then show ?thesis using SetSegments
    by (auto simp: store_inv_def set_segments_def)
next
  case (SetSections b v)
  assume "store_inv st"
  then show ?thesis using SetSections
    by (auto simp: store_inv_def set_sections_def)
next
  case (SetBases b lb mb)
  assume "store_inv st"
  then show ?thesis using SetBases
    by (auto simp: store_inv_def set_bases_def)
next
  case (SetIsMapped b v)
  assume "store_inv st"
  then show ?thesis using SetIsMapped
    by (auto simp: store_inv_def set_is_mapped_def)
qed

lemma store_inv_fold: "store_inv st \<Longrightarrow> store_inv (fold step cs st)"
  by (induction cs arbitrary: st) (auto simp: step_def store_inv_perform)

lemma store_inv_run: "store_inv (run cs)"
  by (simp add: run_def store_inv_fold store_inv_init)

lemma unresolved_not_listed:
  "store_inv st \<Longrightarrow> \<not> resolved (symbols st s) \<Longrightarrow> s \<notin> set (resolved_imports (backends st b))"
  by (auto simp: store_inv_def)

lemma Symbol_resolve_effect:
  "symbols (Symbol_resolve st s obj) =
     (symbols st)(s := (symbols st s)\<lparr>resolved := True, resolvedby := Some obj\<rparr>)"
  "backends (Symbol_resolve st s obj) =
     (backends st)(owner_obj (symbols st s) :=
        (backends st (owner_obj (symbols st s)))\<lparr>resolved_imports :=
           resolved_imports (backends st (owner_obj (symbols st s))) @ [s]\<rparr>)"
  by (simp_all add: Symbol_resolve_def Let_def)

lemma table_inv_init: "table_inv init_state"
  by (simp add: table_inv_def init_state_def Backend_init_def)

lemma Symbol_init_effect:
  "symbols (snd (Symbol_init st owner nm a sz ty)) =
     (symbols st)(next_symbol st :=
        \<lparr>owner_obj = owner, sym_name = nm, addr = a, sym_size = sz, sym_type = ty,
         resolved = False, resolvedby = None\<rparr>)"
  "priv_symbols_by_addr (backends (snd (Symbol_init st owner nm a sz ty)) b) =
     (if b = owner \<and> a \<noteq> 0
      then (priv_symbols_by_addr (backends st b))(a \<mapsto> next_symbol st)
      else priv_symbols_by_addr (backends st b))"
  by (simp_all add: Symbol_init_def Let_def)

lemma table_inv_Symbol_init:
  assumes "store_inv st" and "table_inv st"
  shows "table_inv (snd (Symbol_init st owner nm a sz ty))"
proof -
  have fresh: "priv_symbols_by_addr (backends st b) k \<noteq> Some (next_symbol st)" for b k
  proof
    assume "priv_symbols_by_addr (backends st b) k = Some (next_symbol st)"
    with assms(1) have "next_symbol st < next_symbol st"
      unfolding store_inv_def by blast
    then show False by simp
  qed
  show ?thesis
    unfolding table_inv_def
  proof (intro allI impI)
    fix b k s
    assume h: "priv_symbols_by_addr (backends (snd (Symbol_init st owner nm a sz ty)) b) k = Some s"
    show "addr (symbols (snd (Symbol_init st owner nm a sz ty)) s) = k \<and>
          owner_obj (symbols (snd (Symbol_init st owner nm a sz ty)) s) = b"
    proof (cases "s = next_symbol st")
      case True
      with h fresh [of b k] have "b = owner \<and> a \<noteq> 0 \<and> k = a"
        by (simp add: Symbol_init_effect split: if_splits)
      with True show ?thesis
        by (simp add: Symbol_init_effect)
    next
      case False
      with h have "priv_symbols_by_addr (backends st b) k = Some s"
        by (simp add: Symbol_init_effect split: if_splits)
      with assms(2) have "addr (symbols st s) = k \<and> owner_obj (symbols st s) = b"
        unfolding table_inv_def by blast
      with False show ?thesis
        by (simp add: Symbol_init_effect)
    qed
  qed
qed

lemma perform_frame:
  "symbols (snd (Backend_new st)) = symbols st"
  "symbols (snd (Region_new st r)) = symbols st"
  "symbols (append_segment st b x) = symbols st"
  "symbols (append_section st b x) = symbols st"
  "symbols (set_segments st b v) = symbols st"
  "symbols (set_sections st b v) = symbols st"
  "symbols (set_bases st b lb mb) = symbols st"
  "symbols (set_is_mapped st b f) = symbols st"
  "priv_symbols_by_addr (backends (snd (Backend_new st)) img) =
     (if img = next_backend st then Map.empty else priv_symbols_by_addr (backends st img))"
  "priv_symbols_by_addr (backends (snd (Region_new st r)) img) = priv_symbols_by_addr (backends st img)"
  "priv_symbols_by_addr (backends (append_segment st b x) img) = priv_symbols_by_addr (backends st img)"
  "priv_symbols_by_addr (backends (append_section st b x) img) = priv_symbols_by_addr (backends st img)"
  "priv_symbols_by_addr (backends (set_segments st b v) img) = priv_symbols_by_addr (backends st img)"
  "priv_symbols_by_addr (backends (set_sections st b v) img) = priv_symbols_by_addr (backends st img)"
  "priv_symbols_by_addr (backends (set_bases st b lb mb) img) = priv_symbols_by_addr (backends st img)"
  "priv_symbols_by_addr (backends (set_is_mapped st b f) img) = priv_symbols_by_addr (backends st img)"
  "priv_symbols_by_addr (backends (Symbol_resolve st s obj) img) = priv_symbols_by_addr (backends st img)"
  "addr (symbols (Symbol_resolve st s obj) y) = addr (symbols st y)"
  "owner_obj (symbols (Symbol_resolve st s obj) y) = owner_obj (symbols st y)"
  by (simp_all add: Backend_new_def Backend_init_def Region_new_def append_segment_def
      append_section_def set_segments_def set_sections_def set_bases_def set_is_mapped_def
      Symbol_resolve_effect)

lemma table_inv_perform:
  assumes "store_inv st" and "table_inv st"
  shows "table_inv (perform st c)"
proof (cases c)
  case (NewSymbol owner nm a sz ty)
  with assms show ?thesis by (simp add: table_inv_Symbol_init)
next
  case NewBackend
  with assms(2) show ?thesis by (simp add: table_inv_def perform_frame)
qed (insert assms(2), simp_all add: table_inv_def perform_frame Backend_rebase_frame)

lemma table_inv_fold:
  "store_inv st \<Longrightarrow> table_inv st \<Longrightarrow> table_inv (fold step cs st)"
proof (induction cs arbitrary: st)
  case Nil
  then show ?case by simp
next
  case (Cons c cs)
  have "store_inv (step c st)" and "table_inv (step c st)"
    using Cons.prems by (simp_all add: step_def store_inv_perform table_inv_perform)
  then show ?case using Cons.IH by simp
qed

lemma table_inv_run: "table_inv (run cs)"
  by (simp add: run_def table_inv_fold store_inv_init table_inv_init)

lemma run_snoc: "run (cs @ [c]) = step c (run cs)"
  by (simp add: run_def)

lemma Backend_rebase_counters:
  "next_backend (snd (Backend_rebase st b)) = next_backend st"
  "next_region (snd (Backend_rebase st b)) = next_region st"
  by (simp_all add: Backend_rebase_def Let_def)

lemma import_run_facts:
  "next_symbol (run import_run) = 2"
  "resolved (symbols (run import_run) 0) = False"
  "owner_obj (symbols (run import_run) 0) = 0"
  by (simp_all add: import_run_def run_def step_def Backend_new_def Symbol_init_def Let_def
      init_state_def)

subsection \<open>Symbol: construction and resolution\<close>

lemma Symbol_init_fresh: "fst (Symbol_init st owner nm a sz ty) = next_symbol st"
  by (simp add: Symbol_init_def Let_def)

text \<open>
  C7. Constructing a symbol registers it in its owner's \<^verbatim>\<open>_symbols_by_addr\<close> table under
  the key \<open>addr\<close> if and only if \<open>addr\<close> is not 0: after the construction the table holds
  the new symbol at a key exactly when the key is \<open>addr\<close> and \<open>addr \<noteq> 0\<close>; every other
  entry of the owner's table, and every other image, is as before.
\<close>

theorem Symbol_init_registers:
  assumes "Symbol_init (run cs) owner nm a sz ty = (self, st')"
  shows "(\<forall>k. priv_symbols_by_addr (backends st' owner) k = Some self \<longleftrightarrow> k = a \<and> a \<noteq> 0) \<and>
         (\<forall>k. k \<noteq> a \<or> a = 0 \<longrightarrow>
              priv_symbols_by_addr (backends st' owner) k =
              priv_symbols_by_addr (backends (run cs) owner) k) \<and>
         (\<forall>b. b \<noteq> owner \<longrightarrow> backends st' b = backends (run cs) b)"
proof -
  have self: "self = next_symbol (run cs)"
    using assms by (simp add: Symbol_init_def Let_def)
  have fresh: "priv_symbols_by_addr (backends (run cs) owner) k \<noteq> Some self" for k
  proof
    assume "priv_symbols_by_addr (backends (run cs) owner) k = Some self"
    with store_inv_run [of cs] have "self < next_symbol (run cs)"
      unfolding store_inv_def by blast
    with self show False by simp
  qed
  have st': "st' = snd (Symbol_init (run cs) owner nm a sz ty)"
    using assms by simp
  show ?thesis
    using fresh self unfolding st' by (auto simp: Symbol_init_def Let_def)
qed

theorem Symbol_init_registers_witness:
  "Symbol_init (run import_run) 1 ''exit'' 0x401080 4 2 = (2, snd (Symbol_init (run import_run) 1 ''exit'' 0x401080 4 2)) \<and>
   priv_symbols_by_addr (backends (snd (Symbol_init (run import_run) 1 ''exit'' 0x401080 4 2)) 1) 0x401080 = Some 2 \<and>
   priv_symbols_by_addr (backends (snd (Symbol_init (run import_run) 1 ''exit'' 0x401080 4 2)) 1) 0x401020 = Some 1 \<and>
   priv_symbols_by_addr (backends (snd (Symbol_init (run import_run) 1 ''exit'' 0x401080 4 2)) 1) 0 = None"
proof -
  have a: "Symbol_init (run import_run) 1 ''exit'' 0x401080 4 2 = (2, snd (Symbol_init (run import_run) 1 ''exit'' 0x401080 4 2))"
    by (simp add: prod_eq_iff Symbol_init_fresh import_run_facts)
  have b: "priv_symbols_by_addr (backends (run import_run) 1) 0x401020 = Some 1"
          "priv_symbols_by_addr (backends (run import_run) 1) 0 = None"
    by (simp_all add: import_run_def run_def step_def Backend_new_def Symbol_init_def Let_def
      init_state_def Backend_init_def)
  from Symbol_init_registers [OF a] b show ?thesis using a by simp
qed

text \<open>
  C8. For a symbol \<open>s\<close> of a run with \<^verbatim>\<open>resolved == False\<close>, after one call
  \<^verbatim>\<open>s.resolve(obj)\<close>: \<^verbatim>\<open>s.resolved\<close> is true, \<^verbatim>\<open>s.resolvedby\<close> is \<open>obj\<close>, and the
  \<^verbatim>\<open>resolved_imports\<close> list of the owner of \<open>s\<close> contains \<open>s\<close> exactly once.
\<close>

theorem resolve_once:
  assumes "s < next_symbol (run cs)" and "\<not> resolved (symbols (run cs) s)"
  shows "resolved (symbols (Symbol_resolve (run cs) s obj) s) \<and>
         resolvedby (symbols (Symbol_resolve (run cs) s obj) s) = Some obj \<and>
         count_list (resolved_imports (backends (Symbol_resolve (run cs) s obj)
                                        (owner_obj (symbols (Symbol_resolve (run cs) s obj) s)))) s = 1"
proof -
  have "s \<notin> set (resolved_imports (backends (run cs) (owner_obj (symbols (run cs) s))))"
    using assms(2) store_inv_run by (rule unresolved_not_listed [rotated])
  then have "count_list (resolved_imports (backends (run cs) (owner_obj (symbols (run cs) s)))) s = 0"
    by (simp add: count_list_0_iff)
  then show ?thesis
    by (simp add: Symbol_resolve_effect)
qed

theorem resolve_once_witness:
  "0 < next_symbol (run import_run) \<and> \<not> resolved (symbols (run import_run) 0) \<and>
   resolved (symbols (Symbol_resolve (run import_run) 0 1) 0) \<and>
   resolvedby (symbols (Symbol_resolve (run import_run) 0 1) 0) = Some 1 \<and>
   count_list (resolved_imports (backends (Symbol_resolve (run import_run) 0 1) 0)) 0 = 1"
proof -
  have a: "0 < next_symbol (run import_run)" by (simp add: import_run_facts)
  have b: "\<not> resolved (symbols (run import_run) 0)" by (simp add: import_run_facts)
  have o: "owner_obj (symbols (Symbol_resolve (run import_run) 0 1) 0) = 0"
    by (simp add: Symbol_resolve_effect import_run_facts)
  from resolve_once [OF a b, of 1, unfolded o] a b show ?thesis by simp
qed

lemma resolve_each_owner:
  "owner_obj (symbols (resolve_each st s objs) s) = owner_obj (symbols st s)"
  by (induction objs arbitrary: st) (simp_all add: resolve_each_def Symbol_resolve_effect)

lemma resolve_each_count:
  "count_list (resolved_imports (backends (resolve_each st s objs) (owner_obj (symbols st s)))) s =
   count_list (resolved_imports (backends st (owner_obj (symbols st s)))) s + length objs"
proof (induction objs arbitrary: st)
  case Nil
  show ?case by (simp add: resolve_each_def)
next
  case (Cons obj objs)
  have o: "owner_obj (symbols (Symbol_resolve st s obj) s) = owner_obj (symbols st s)"
    by (simp add: Symbol_resolve_effect)
  have "resolve_each st s (obj # objs) = resolve_each (Symbol_resolve st s obj) s objs"
    by (simp add: resolve_each_def)
  then show ?case
    using Cons.IH [of "Symbol_resolve st s obj"] by (simp add: o) (simp add: Symbol_resolve_effect)
qed

lemma resolve_each_last:
  "objs \<noteq> [] \<Longrightarrow>
   resolved (symbols (resolve_each st s objs) s) \<and>
   resolvedby (symbols (resolve_each st s objs) s) = Some (last objs)"
proof (induction objs arbitrary: st)
  case Nil
  then show ?case by simp
next
  case (Cons obj objs)
  have u: "resolve_each st s (obj # objs) = resolve_each (Symbol_resolve st s obj) s objs"
    by (simp add: resolve_each_def)
  show ?case
  proof (cases "objs = []")
    case True
    then show ?thesis by (simp add: resolve_each_def Symbol_resolve_effect)
  next
    case False
    then show ?thesis using Cons.IH [of "Symbol_resolve st s obj"] u by simp
  qed
qed

text \<open>
  C10. \<^verbatim>\<open>resolve\<close> never fails and never checks \<^verbatim>\<open>resolved\<close>: called once for each object
  of a list \<open>objs\<close> on a symbol that was unresolved, it leaves the symbol in its owner's
  \<^verbatim>\<open>resolved_imports\<close> list as many times as there were calls, and \<^verbatim>\<open>resolvedby\<close> is the
  object of the last call.
\<close>

theorem resolve_repeated:
  assumes "s < next_symbol (run cs)" and "\<not> resolved (symbols (run cs) s)"
  shows "count_list (resolved_imports (backends (resolve_each (run cs) s objs)
                                        (owner_obj (symbols (resolve_each (run cs) s objs) s)))) s
           = length objs \<and>
         (objs \<noteq> [] \<longrightarrow>
            resolved (symbols (resolve_each (run cs) s objs) s) \<and>
            resolvedby (symbols (resolve_each (run cs) s objs) s) = Some (last objs))"
proof -
  have "s \<notin> set (resolved_imports (backends (run cs) (owner_obj (symbols (run cs) s))))"
    using assms(2) store_inv_run by (rule unresolved_not_listed [rotated])
  then have "count_list (resolved_imports (backends (run cs) (owner_obj (symbols (run cs) s)))) s = 0"
    by (simp add: count_list_0_iff)
  then show ?thesis
    using resolve_each_count [of "run cs" s objs] resolve_each_last [of objs "run cs" s]
    by (simp add: resolve_each_owner)
qed

theorem resolve_repeated_witness:
  "0 < next_symbol (run import_run) \<and> \<not> resolved (symbols (run import_run) 0) \<and>
   count_list (resolved_imports (backends (resolve_each (run import_run) 0 [1, 1, 0]) 0)) 0 = 3 \<and>
   resolvedby (symbols (resolve_each (run import_run) 0 [1, 1, 0]) 0) = Some 0"
proof -
  have a: "0 < next_symbol (run import_run)" by (simp add: import_run_facts)
  have b: "\<not> resolved (symbols (run import_run) 0)" by (simp add: import_run_facts)
  have o: "owner_obj (symbols (resolve_each (run import_run) 0 [1, 1, 0]) 0) = 0"
    by (simp add: resolve_each_owner import_run_facts)
  from resolve_repeated [OF a b, of "[1, 1, 0]", unfolded o] a b show ?thesis
    by (simp add: numeral_3_eq_3)
qed

subsection \<open>Backend.rebase\<close>

lemma count_list_distinct:
  "distinct xs \<Longrightarrow> count_list xs y = (if y \<in> set xs then 1 else 0)"
  by (induction xs) auto

lemma fold_rebase_apply:
  "fold (\<lambda>x g. g(x := Region_rebase (g x) d)) xs h =
   (\<lambda>y. (h y)\<lparr>vaddr := vaddr (h y) + d * int (count_list xs y)\<rparr>)"
proof (induction xs arbitrary: h)
  case Nil
  show ?case by simp
next
  case (Cons x xs)
  let ?f = "\<lambda>x g. g(x := Region_rebase (g x) d)"
  let ?h = "h(x := Region_rebase (h x) d)"
  have "fold ?f (x # xs) h = fold ?f xs ?h"
    by simp
  also have "\<dots> = (\<lambda>y. (?h y)\<lparr>vaddr := vaddr (?h y) + d * int (count_list xs y)\<rparr>)"
    by (rule Cons.IH)
  also have "\<dots> = (\<lambda>y. (h y)\<lparr>vaddr := vaddr (h y) + d * int (count_list (x # xs) y)\<rparr>)"
    by (rule ext) (simp add: Region_rebase_def algebra_simps)
  finally show ?case .
qed

lemma Regions_rebase_apply:
  "Regions_rebase h rs d y = (h y)\<lparr>vaddr := vaddr (h y) + d * int (count_list (priv_list rs) y)\<rparr>"
  by (simp add: Regions_rebase_def fold_rebase_apply)

lemma Regions_rebase_empty: "\<not> Regions_bool rs \<Longrightarrow> Regions_rebase h rs d = h"
  by (simp add: Regions_bool_def Regions_len_def Regions_rebase_def)

lemma Backend_rebase_regions:
  "\<not> priv_is_mapped (backends st b) \<Longrightarrow>
   regions (snd (Backend_rebase st b)) y =
     (regions st y)\<lparr>vaddr := vaddr (regions st y) + image_base_delta (backends st b) *
        int (count_list (priv_list (sections (backends st b)) @ priv_list (segments (backends st b))) y)\<rparr>"
  by (simp add: Backend_rebase_def Let_def Regions_rebase_apply Regions_rebase_empty algebra_simps
       Regions_bool_def Regions_len_def)

lemma Backend_rebase_unmapped_shape:
  "\<not> priv_is_mapped (backends st b) \<Longrightarrow>
   Backend_rebase st b = (None, st\<lparr>regions := regions (snd (Backend_rebase st b))\<rparr>)"
  by (simp add: Backend_rebase_def Let_def)

lemma layout_facts:
  "priv_list (sections (backends (run layout_run) 0)) = [1]"
  "priv_list (segments (backends (run layout_run) 0)) = [0]"
  "priv_is_mapped (backends (run layout_run) 0) = False"
  "image_base_delta (backends (run layout_run) 0) = 0x7effffc00000"
  "regions (run layout_run) 0 = Region_init 0 0x1000 0x100 0x100"
  "regions (run layout_run) (Suc 0) = Section_init ''.data'' 0x200 0x5000 0x10"
  by (simp_all add: layout_run_def run_def step_def Backend_new_def Region_new_def
      append_segment_def append_section_def set_bases_def Regions_append_def
      key_bisect_insort_left_def key_bisect_left_loop.simps init_state_def Backend_init_def
      Regions_init_def
      segments_def sections_def image_base_delta_def)

lemma layout_counters:
  "next_backend (run layout_run) = 1"
  "linked_base (backends (run layout_run) 0) = 0x400000"
  "mapped_base (backends (run layout_run) 0) = 0x7f0000000000"
  by (simp_all add: layout_run_def run_def step_def Backend_new_def Region_new_def
      append_segment_def append_section_def set_bases_def init_state_def Backend_init_def)

lemma mapped_facts:
  "backends (run mapped_run) 0 = (backends (run layout_run) 0)\<lparr>priv_is_mapped := True\<rparr>"
proof -
  have "run mapped_run = step (SetIsMapped 0 True) (step (Rebase 0) (run layout_run))"
    using run_snoc [of "layout_run @ [Rebase 0]" "SetIsMapped 0 True"] run_snoc [of layout_run "Rebase 0"]
    by (simp add: mapped_run_def)
  then show ?thesis
    by (simp add: step_def layout_counters Backend_rebase_counters Backend_rebase_frame set_is_mapped_def)
qed

text \<open>
  C1, as the code has it. On an image whose \<^verbatim>\<open>_is_mapped\<close> is false and whose sections and
  segments lists hold each region object once, \<^verbatim>\<open>rebase()\<close> adds
  \<^verbatim>\<open>mapped_base - linked_base\<close> to the \<^verbatim>\<open>vaddr\<close> of every region of those lists and changes
  nothing else: the flag stays false, it is the loader that sets it. On an image whose
  \<^verbatim>\<open>_is_mapped\<close> is true, \<^verbatim>\<open>rebase()\<close> raises \<^verbatim>\<open>CLEOperationError\<close> and leaves the store as
  it was.
\<close>

theorem Backend_rebase_effect:
  assumes "distinct (priv_list (sections (backends st b)) @ priv_list (segments (backends st b)))"
  shows "Backend_rebase st b =
     (if priv_is_mapped (backends st b)
      then (Some (CLEOperationError (linked_base (backends st b)) (mapped_base (backends st b))), st)
      else (None, st\<lparr>regions := (\<lambda>x.
              if x \<in> set (priv_list (sections (backends st b))) \<union> set (priv_list (segments (backends st b)))
              then Region_rebase (regions st x) (image_base_delta (backends st b))
              else regions st x)\<rparr>))"
proof (cases "priv_is_mapped (backends st b)")
  case True
  then show ?thesis by (simp add: Backend_rebase_def Let_def)
next
  case False
  let ?xs = "priv_list (sections (backends st b)) @ priv_list (segments (backends st b))"
  have c: "count_list ?xs y = (if y \<in> set ?xs then 1 else 0)" for y
    using assms by (rule count_list_distinct)
  have "regions (snd (Backend_rebase st b)) =
        (\<lambda>x. if x \<in> set (priv_list (sections (backends st b))) \<union> set (priv_list (segments (backends st b)))
              then Region_rebase (regions st x) (image_base_delta (backends st b))
              else regions st x)"
  proof
    fix y
    show "regions (snd (Backend_rebase st b)) y =
        (if y \<in> set (priv_list (sections (backends st b))) \<union> set (priv_list (segments (backends st b)))
              then Region_rebase (regions st y) (image_base_delta (backends st b))
              else regions st y)"
      unfolding Backend_rebase_regions [OF False] c by (simp add: Region_rebase_def)
  qed
  with Backend_rebase_unmapped_shape [OF False] False show ?thesis by simp
qed

theorem Backend_rebase_effect_witness:
  "distinct (priv_list (sections (backends (run layout_run) 0)) @
             priv_list (segments (backends (run layout_run) 0))) \<and>
   fst (Backend_rebase (run layout_run) 0) = None \<and>
   regions (snd (Backend_rebase (run layout_run) 0)) 0 = Region_init 0 0x7effffc01000 0x100 0x100 \<and>
   regions (snd (Backend_rebase (run layout_run) 0)) 1 = Section_init ''.data'' 0x200 0x7effffc05000 0x10 \<and>
   \<not> priv_is_mapped (backends (snd (Backend_rebase (run layout_run) 0)) 0) \<and>
   distinct (priv_list (sections (backends (run mapped_run) 0)) @
             priv_list (segments (backends (run mapped_run) 0))) \<and>
   Backend_rebase (run mapped_run) 0 =
     (Some (CLEOperationError 0x400000 0x7f0000000000), run mapped_run)"
proof -
  have a: "distinct (priv_list (sections (backends (run layout_run) 0)) @
             priv_list (segments (backends (run layout_run) 0)))"
    by (simp add: layout_facts)
  have b: "distinct (priv_list (sections (backends (run mapped_run) 0)) @
             priv_list (segments (backends (run mapped_run) 0)))"
    by (simp add: mapped_facts sections_def segments_def layout_facts [unfolded sections_def segments_def])
  have c: "Backend_rebase (run mapped_run) 0 =
     (Some (CLEOperationError 0x400000 0x7f0000000000), run mapped_run)"
    using Backend_rebase_effect [OF b] by (simp add: mapped_facts layout_counters)
  have d: "fst (Backend_rebase (run layout_run) 0) = None \<and>
     regions (snd (Backend_rebase (run layout_run) 0)) 0 = Region_init 0 0x7effffc01000 0x100 0x100 \<and>
     regions (snd (Backend_rebase (run layout_run) 0)) 1 = Section_init ''.data'' 0x200 0x7effffc05000 0x10 \<and>
     \<not> priv_is_mapped (backends (snd (Backend_rebase (run layout_run) 0)) 0)"
    using Backend_rebase_effect [OF a]
    by (simp add: layout_facts Region_rebase_def Region_init_def Section_init_def)
  from a b c d show ?thesis by simp
qed

text \<open>
  C1, as the claim states it, fails: after a first \<^verbatim>\<open>rebase()\<close> on an unmapped image the
  flag is still false, and a second \<^verbatim>\<open>rebase()\<close> raises nothing and shifts the regions a
  second time.
\<close>

theorem double_rebase_counterexample:
  "fst (Backend_rebase (run layout_run) 0) = None \<and>
   \<not> priv_is_mapped (backends (snd (Backend_rebase (run layout_run) 0)) 0) \<and>
   fst (Backend_rebase (snd (Backend_rebase (run layout_run) 0)) 0) = None \<and>
   vaddr (regions (run layout_run) 0) = 0x1000 \<and>
   vaddr (regions (snd (Backend_rebase (run layout_run) 0)) 0) = 0x7effffc01000 \<and>
   vaddr (regions (snd (Backend_rebase (snd (Backend_rebase (run layout_run) 0)) 0)) 0) = 0xfdffff801000"
  by (simp add: Backend_rebase_def Let_def layout_facts Regions_bool_def Regions_len_def
      Regions_rebase_def Region_rebase_def Region_init_def)

subsection \<open>Symbols under a rebase\<close>

lemma symbols_by_addr_translated:
  "symbols_by_addr bk (to_mapped x bk) = priv_symbols_by_addr bk x"
  by (simp add: symbols_by_addr_def to_mapped_def to_linked_def)

lemma loaded_facts:
  "priv_symbols_by_addr (backends (run loaded_run) 0) 0x401020 = Some 0"
  "addr (symbols (run loaded_run) 0) = 0x401020"
  "owner_obj (symbols (run loaded_run) 0) = 0"
  "image_base_delta (backends (run loaded_run) 0) = 0x7effffc00000"
  by (simp_all add: loaded_run_def layout_run_def run_def step_def Backend_new_def Region_new_def
      append_segment_def append_section_def set_bases_def Symbol_init_def Let_def
      init_state_def Backend_init_def image_base_delta_def)

text \<open>
  C9. \<^verbatim>\<open>rebase()\<close> changes no symbol, so every stored \<^verbatim>\<open>addr\<close> is as before; after it,
  \<^verbatim>\<open>rebased_addr\<close> of a symbol is its stored \<^verbatim>\<open>addr\<close> plus the base delta its owner has
  then, and \<^verbatim>\<open>symbols_by_addr\<close> of an image exposes every symbol of the image's table
  under the symbol's stored \<^verbatim>\<open>addr\<close> plus the image's base delta.
\<close>

theorem rebase_keeps_symbols:
  "symbols (snd (Backend_rebase (run cs) b)) = symbols (run cs) \<and>
   (\<forall>s. Symbol_rebased_addr (snd (Backend_rebase (run cs) b)) s =
         addr (symbols (run cs) s) +
         image_base_delta (backends (snd (Backend_rebase (run cs) b)) (owner_obj (symbols (run cs) s)))) \<and>
   (\<forall>img k s. priv_symbols_by_addr (backends (snd (Backend_rebase (run cs) b)) img) k = Some s \<longrightarrow>
         k = addr (symbols (run cs) s) \<and>
         symbols_by_addr (backends (snd (Backend_rebase (run cs) b)) img)
           (addr (symbols (run cs) s) + image_base_delta (backends (snd (Backend_rebase (run cs) b)) img))
           = Some s)"
proof (intro conjI allI impI)
  show "symbols (snd (Backend_rebase (run cs) b)) = symbols (run cs)"
    by (simp add: Backend_rebase_frame)
next
  fix s
  show "Symbol_rebased_addr (snd (Backend_rebase (run cs) b)) s =
         addr (symbols (run cs) s) +
         image_base_delta (backends (snd (Backend_rebase (run cs) b)) (owner_obj (symbols (run cs) s)))"
    by (simp add: Symbol_rebased_addr_def to_mapped_def Backend_rebase_frame)
next
  fix img k s
  assume "priv_symbols_by_addr (backends (snd (Backend_rebase (run cs) b)) img) k = Some s"
  then have h: "priv_symbols_by_addr (backends (run cs) img) k = Some s"
    by (simp add: Backend_rebase_frame)
  with table_inv_run [of cs] show k: "k = addr (symbols (run cs) s)"
    unfolding table_inv_def by blast
  from h show "symbols_by_addr (backends (snd (Backend_rebase (run cs) b)) img)
           (addr (symbols (run cs) s) + image_base_delta (backends (snd (Backend_rebase (run cs) b)) img))
           = Some s"
    using symbols_by_addr_translated [of "backends (run cs) img" k]
    by (simp add: Backend_rebase_frame to_mapped_def k)
qed

theorem rebase_keeps_symbols_witness:
  "priv_symbols_by_addr (backends (snd (Backend_rebase (run loaded_run) 0)) 0) 0x401020 = Some 0 \<and>
   addr (symbols (snd (Backend_rebase (run loaded_run) 0)) 0) = 0x401020 \<and>
   Symbol_rebased_addr (snd (Backend_rebase (run loaded_run) 0)) 0 = 0x7f0000001020 \<and>
   symbols_by_addr (backends (snd (Backend_rebase (run loaded_run) 0)) 0) 0x7f0000001020 = Some 0"
proof -
  have a: "priv_symbols_by_addr (backends (snd (Backend_rebase (run loaded_run) 0)) 0) 0x401020 = Some 0"
    by (simp add: Backend_rebase_frame loaded_facts)
  note t = rebase_keeps_symbols [of loaded_run 0]
  have b: "addr (symbols (snd (Backend_rebase (run loaded_run) 0)) 0) = 0x401020"
    using t [THEN conjunct1] by (simp add: loaded_facts)
  have c: "Symbol_rebased_addr (snd (Backend_rebase (run loaded_run) 0)) 0 = 0x7f0000001020"
    using t [THEN conjunct2, THEN conjunct1, rule_format, of 0]
    by (simp add: Backend_rebase_frame loaded_facts)
  have d: "symbols_by_addr (backends (snd (Backend_rebase (run loaded_run) 0)) 0) 0x7f0000001020 = Some 0"
    using t [THEN conjunct2, THEN conjunct2, rule_format, OF a, THEN conjunct2]
    by (simp add: Backend_rebase_frame loaded_facts)
  from a b c d show ?thesis by simp
qed

subsection \<open>Backend: the address range and the translation of offsets\<close>

lemma py_max_Max: "xs \<noteq> [] \<Longrightarrow> py_max xs = Inr (Max (set xs))"
  by (cases xs) (simp_all add: Max.set_eq_fold del: set_simps)

text \<open>
  C2, as the code has it. \<^verbatim>\<open>min_addr\<close> is \<^verbatim>\<open>mapped_base\<close>. \<^verbatim>\<open>max_addr\<close> is the maximum of
  \<^verbatim>\<open>max_addr\<close> over the segments when the image has a segment, over the sections when it
  has no segment but a section, and \<^verbatim>\<open>mapped_base\<close> when it has neither; \<^verbatim>\<open>max\<close> never
  raises there.
\<close>

theorem Backend_addr_range:
  "Backend_min_addr bk = mapped_base bk \<and>
   Backend_max_addr h bk =
     Inr (if priv_list (segments bk) \<noteq> []
          then Max ((\<lambda>x. Region_max_addr (h x)) ` set (priv_list (segments bk)))
          else if priv_list (sections bk) \<noteq> []
          then Max ((\<lambda>x. Region_max_addr (h x)) ` set (priv_list (sections bk)))
          else mapped_base bk)"
  by (simp add: Backend_min_addr_def Backend_max_addr_def segments_or_sections_def
      Regions_bool_def Regions_len_def Regions_iter_def py_max_Max)

text \<open>
  C2, as the claim states it, fails: with a segment ending at \<^verbatim>\<open>0x10ff\<close> and a section
  ending at \<^verbatim>\<open>0x500f\<close>, \<^verbatim>\<open>max_addr\<close> is \<^verbatim>\<open>0x10ff\<close>, not the maximum over all regions.
\<close>

theorem max_addr_counterexample:
  "Backend_max_addr (regions (run layout_run)) (backends (run layout_run) 0) = Inr 0x10ff \<and>
   Max ((\<lambda>x. Region_max_addr (regions (run layout_run) x)) `
        (set (priv_list (segments (backends (run layout_run) 0))) \<union>
         set (priv_list (sections (backends (run layout_run) 0))))) = 0x500f"
  by (simp add: Backend_max_addr_def segments_or_sections_def Regions_bool_def Regions_len_def
      Regions_iter_def layout_facts Region_max_addr_def Region_init_def Section_init_def)

lemma offset_scan_find:
  "offset_scan h xs off =
     (case find (\<lambda>x. Region_contains_offset (h x) off) xs of
        None \<Rightarrow> None
      | Some x \<Rightarrow> Region_offset_to_addr (h x) off)"
  by (induction xs) simp_all

lemma Region_offset_to_addr_Some:
  "filesize r \<le> memsize r \<Longrightarrow> Region_contains_offset r off \<Longrightarrow>
   Region_offset_to_addr r off = Some (off - offset r + vaddr r)"
  by (simp add: Region_offset_to_addr_def Region_contains_offset_def Region_contains_addr_def)

lemma offset_scan_Some:
  "\<forall>x \<in> set xs. filesize (h x) \<le> memsize (h x) \<Longrightarrow>
   (offset_scan h xs off \<noteq> None) = (\<exists>x \<in> set xs. Region_contains_offset (h x) off)"
  by (induction xs) (auto simp: Region_offset_to_addr_Some)

text \<open>
  C3, as the code has it. \<^verbatim>\<open>offset_to_addr\<close> walks the segments when the image has a
  segment and the sections only when it has none; the first region of the walk that
  contains the offset translates it. When every region of the walk has
  \<open>filesize \<le> memsize\<close>, the result is an address exactly when some region of the walk
  contains the offset.
\<close>

theorem Backend_offset_to_addr_scan:
  assumes "\<forall>x \<in> set (priv_list (segments_or_sections bk)). filesize (h x) \<le> memsize (h x)"
  shows "Backend_offset_to_addr h bk off =
           (case find (\<lambda>x. Region_contains_offset (h x) off) (priv_list (segments_or_sections bk)) of
              None \<Rightarrow> None
            | Some x \<Rightarrow> Region_offset_to_addr (h x) off) \<and>
         (Backend_offset_to_addr h bk off \<noteq> None) =
           (\<exists>x \<in> set (priv_list (segments_or_sections bk)). Region_contains_offset (h x) off)"
proof -
  have "Backend_offset_to_addr h bk off = offset_scan h (priv_list (segments_or_sections bk)) off"
    by (simp add: Backend_offset_to_addr_def segments_or_sections_def Regions_iter_def)
  then show ?thesis
    using offset_scan_Some [OF assms, of off] by (simp add: offset_scan_find)
qed

theorem Backend_offset_to_addr_scan_witness:
  "priv_list (segments_or_sections (backends (run layout_run) 0)) = [0] \<and>
   filesize (regions (run layout_run) 0) \<le> memsize (regions (run layout_run) 0) \<and>
   Region_contains_offset (regions (run layout_run) 0) 0x50 \<and>
   Backend_offset_to_addr (regions (run layout_run)) (backends (run layout_run) 0) 0x50 = Some 0x1050"
proof -
  have l: "priv_list (segments_or_sections (backends (run layout_run) 0)) = [0]"
    by (simp add: segments_or_sections_def Regions_bool_def Regions_len_def layout_facts)
  have a: "\<forall>x \<in> set (priv_list (segments_or_sections (backends (run layout_run) 0))).
      filesize (regions (run layout_run) x) \<le> memsize (regions (run layout_run) x)"
    by (simp add: l layout_facts Region_init_def)
  from Backend_offset_to_addr_scan [OF a, of "0x50"] l show ?thesis
    by (simp add: layout_facts Region_init_def Region_contains_offset_def
        Region_offset_to_addr_def Region_contains_addr_def)
qed

text \<open>
  C3, as the claim states it, fails: the image has a segment, no segment contains the
  offset \<^verbatim>\<open>0x205\<close>, the section \<^verbatim>\<open>.data\<close> contains it, and the result is \<^verbatim>\<open>None\<close>.
\<close>

theorem offset_to_addr_counterexample:
  "Region_contains_offset (regions (run layout_run) 1) 0x205 \<and>
   1 \<in> set (priv_list (sections (backends (run layout_run) 0))) \<and>
   Backend_offset_to_addr (regions (run layout_run)) (backends (run layout_run) 0) 0x205 = None"
  by (simp add: Backend_offset_to_addr_def Regions_bool_def Regions_len_def Regions_iter_def
      layout_facts Region_contains_offset_def Region_init_def Section_init_def)

subsection \<open>Regions.find_region_containing\<close>

text \<open>
  On keys in ascending order, each bisection returns the boundary it looks for: all keys
  before it are at most (less than) the item, all keys from it on are greater than (at
  least) the item.
\<close>

lemma key_bisect_find_loop_correct:
  assumes "sorted (map keyfunc lst)" and "lo \<le> hi" and "hi \<le> length lst"
  shows "lo \<le> key_bisect_find_loop lst item keyfunc lo hi \<and>
         key_bisect_find_loop lst item keyfunc lo hi \<le> hi \<and>
         (\<forall>j. lo \<le> j \<and> j < key_bisect_find_loop lst item keyfunc lo hi \<longrightarrow> keyfunc (lst ! j) \<le> item) \<and>
         (\<forall>j. key_bisect_find_loop lst item keyfunc lo hi \<le> j \<and> j < hi \<longrightarrow> item < keyfunc (lst ! j))"
  using assms
proof (induction lst item keyfunc lo hi rule: key_bisect_find_loop.induct)
  case (1 lst item keyfunc lo hi)
  show ?case
  proof (cases "lo < hi")
    case False
    then have "key_bisect_find_loop lst item keyfunc lo hi = lo"
      by (simp add: key_bisect_find_loop.simps [of lst item keyfunc lo hi])
    with False "1.prems"(2) show ?thesis by simp
  next
    case True
    define mid where "mid = (lo + hi) div 2"
    have mid: "lo \<le> mid" "mid < hi" using True by (simp_all add: mid_def)
    have mono: "i \<le> j \<Longrightarrow> j < length lst \<Longrightarrow> keyfunc (lst ! i) \<le> keyfunc (lst ! j)" for i j
      using "1.prems"(1) sorted_nth_mono [of "map keyfunc lst" i j] by simp
    show ?thesis
    proof (cases "keyfunc (lst ! mid) \<le> item")
      case le: True
      have eq: "key_bisect_find_loop lst item keyfunc lo hi =
                key_bisect_find_loop lst item keyfunc (mid + 1) hi"
        using True le by (simp add: key_bisect_find_loop.simps [of lst item keyfunc lo hi] mid_def Let_def)
      have ih: "mid + 1 \<le> key_bisect_find_loop lst item keyfunc (mid + 1) hi \<and>
         key_bisect_find_loop lst item keyfunc (mid + 1) hi \<le> hi \<and>
         (\<forall>j. mid + 1 \<le> j \<and> j < key_bisect_find_loop lst item keyfunc (mid + 1) hi \<longrightarrow> keyfunc (lst ! j) \<le> item) \<and>
         (\<forall>j. key_bisect_find_loop lst item keyfunc (mid + 1) hi \<le> j \<and> j < hi \<longrightarrow> item < keyfunc (lst ! j))"
      proof -
        have "mid + 1 \<le> hi" using mid by simp
        from "1.IH"(1) [OF True mid_def le "1.prems"(1) this "1.prems"(3)] show ?thesis .
      qed
      have low: "keyfunc (lst ! j) \<le> item" if "lo \<le> j" "j \<le> mid" for j
      proof -
        have "mid < length lst" using mid "1.prems"(3) by simp
        from mono [OF that(2) this] le show ?thesis by linarith
      qed
      show ?thesis
        unfolding eq
      proof (intro conjI allI impI)
        show "lo \<le> key_bisect_find_loop lst item keyfunc (mid + 1) hi"
          using ih mid by linarith
      next
        show "key_bisect_find_loop lst item keyfunc (mid + 1) hi \<le> hi"
          using ih by blast
      next
        fix j
        assume j: "lo \<le> j \<and> j < key_bisect_find_loop lst item keyfunc (mid + 1) hi"
        show "keyfunc (lst ! j) \<le> item"
        proof (cases "j \<le> mid")
          case True
          with j low show ?thesis by blast
        next
          case False
          then have "mid + 1 \<le> j" by simp
          with j ih show ?thesis by blast
        qed
      next
        fix j
        assume "key_bisect_find_loop lst item keyfunc (mid + 1) hi \<le> j \<and> j < hi"
        with ih show "item < keyfunc (lst ! j)" by blast
      qed
    next
      case gt: False
      have eq: "key_bisect_find_loop lst item keyfunc lo hi =
                key_bisect_find_loop lst item keyfunc lo mid"
        using True gt by (simp add: key_bisect_find_loop.simps [of lst item keyfunc lo hi] mid_def Let_def)
      have ih: "lo \<le> key_bisect_find_loop lst item keyfunc lo mid \<and>
         key_bisect_find_loop lst item keyfunc lo mid \<le> mid \<and>
         (\<forall>j. lo \<le> j \<and> j < key_bisect_find_loop lst item keyfunc lo mid \<longrightarrow> keyfunc (lst ! j) \<le> item) \<and>
         (\<forall>j. key_bisect_find_loop lst item keyfunc lo mid \<le> j \<and> j < mid \<longrightarrow> item < keyfunc (lst ! j))"
      proof -
        have "lo \<le> mid" "mid \<le> length lst" using mid "1.prems"(3) by simp_all
        from "1.IH"(2) [OF True mid_def gt "1.prems"(1) this] show ?thesis .
      qed
      have high: "item < keyfunc (lst ! j)" if "mid \<le> j" "j < hi" for j
      proof -
        have "j < length lst" using that "1.prems"(3) by simp
        from mono [OF that(1) this] gt show ?thesis by linarith
      qed
      show ?thesis
        unfolding eq
      proof (intro conjI allI impI)
        show "lo \<le> key_bisect_find_loop lst item keyfunc lo mid"
          using ih by blast
      next
        show "key_bisect_find_loop lst item keyfunc lo mid \<le> hi"
          using ih mid by linarith
      next
        fix j
        assume "lo \<le> j \<and> j < key_bisect_find_loop lst item keyfunc lo mid"
        with ih show "keyfunc (lst ! j) \<le> item" by blast
      next
        fix j
        assume j: "key_bisect_find_loop lst item keyfunc lo mid \<le> j \<and> j < hi"
        show "item < keyfunc (lst ! j)"
        proof (cases "j < mid")
          case True
          with j ih show ?thesis by blast
        next
          case False
          then have "mid \<le> j" by simp
          with j high show ?thesis by blast
        qed
      qed
    qed
  qed
qed

lemma key_bisect_left_loop_correct:
  assumes "sorted (map keyfunc lst)" and "lo \<le> hi" and "hi \<le> length lst"
  shows "lo \<le> key_bisect_left_loop lst k keyfunc lo hi \<and>
         key_bisect_left_loop lst k keyfunc lo hi \<le> hi \<and>
         (\<forall>j. lo \<le> j \<and> j < key_bisect_left_loop lst k keyfunc lo hi \<longrightarrow> keyfunc (lst ! j) < k) \<and>
         (\<forall>j. key_bisect_left_loop lst k keyfunc lo hi \<le> j \<and> j < hi \<longrightarrow> k \<le> keyfunc (lst ! j))"
  using assms
proof (induction lst k keyfunc lo hi rule: key_bisect_left_loop.induct)
  case (1 lst k keyfunc lo hi)
  show ?case
  proof (cases "lo < hi")
    case False
    then have "key_bisect_left_loop lst k keyfunc lo hi = lo"
      by (simp add: key_bisect_left_loop.simps [of lst k keyfunc lo hi])
    with False "1.prems"(2) show ?thesis by simp
  next
    case True
    define mid where "mid = (lo + hi) div 2"
    have mid: "lo \<le> mid" "mid < hi" using True by (simp_all add: mid_def)
    have mono: "i \<le> j \<Longrightarrow> j < length lst \<Longrightarrow> keyfunc (lst ! i) \<le> keyfunc (lst ! j)" for i j
      using "1.prems"(1) sorted_nth_mono [of "map keyfunc lst" i j] by simp
    show ?thesis
    proof (cases "keyfunc (lst ! mid) < k")
      case lt: True
      have eq: "key_bisect_left_loop lst k keyfunc lo hi =
                key_bisect_left_loop lst k keyfunc (mid + 1) hi"
        using True lt by (simp add: key_bisect_left_loop.simps [of lst k keyfunc lo hi] mid_def Let_def)
      have ih: "mid + 1 \<le> key_bisect_left_loop lst k keyfunc (mid + 1) hi \<and>
         key_bisect_left_loop lst k keyfunc (mid + 1) hi \<le> hi \<and>
         (\<forall>j. mid + 1 \<le> j \<and> j < key_bisect_left_loop lst k keyfunc (mid + 1) hi \<longrightarrow> keyfunc (lst ! j) < k) \<and>
         (\<forall>j. key_bisect_left_loop lst k keyfunc (mid + 1) hi \<le> j \<and> j < hi \<longrightarrow> k \<le> keyfunc (lst ! j))"
      proof -
        have "mid + 1 \<le> hi" using mid by simp
        from "1.IH"(1) [OF True mid_def lt "1.prems"(1) this "1.prems"(3)] show ?thesis .
      qed
      have low: "keyfunc (lst ! j) < k" if "lo \<le> j" "j \<le> mid" for j
      proof -
        have "mid < length lst" using mid "1.prems"(3) by simp
        from mono [OF that(2) this] lt show ?thesis by linarith
      qed
      show ?thesis
        unfolding eq
      proof (intro conjI allI impI)
        show "lo \<le> key_bisect_left_loop lst k keyfunc (mid + 1) hi"
          using ih mid by linarith
      next
        show "key_bisect_left_loop lst k keyfunc (mid + 1) hi \<le> hi"
          using ih by blast
      next
        fix j
        assume j: "lo \<le> j \<and> j < key_bisect_left_loop lst k keyfunc (mid + 1) hi"
        show "keyfunc (lst ! j) < k"
        proof (cases "j \<le> mid")
          case True
          with j low show ?thesis by blast
        next
          case False
          then have "mid + 1 \<le> j" by simp
          with j ih show ?thesis by blast
        qed
      next
        fix j
        assume "key_bisect_left_loop lst k keyfunc (mid + 1) hi \<le> j \<and> j < hi"
        with ih show "k \<le> keyfunc (lst ! j)" by blast
      qed
    next
      case ge: False
      have eq: "key_bisect_left_loop lst k keyfunc lo hi =
                key_bisect_left_loop lst k keyfunc lo mid"
        using True ge by (simp add: key_bisect_left_loop.simps [of lst k keyfunc lo hi] mid_def Let_def)
      have ih: "lo \<le> key_bisect_left_loop lst k keyfunc lo mid \<and>
         key_bisect_left_loop lst k keyfunc lo mid \<le> mid \<and>
         (\<forall>j. lo \<le> j \<and> j < key_bisect_left_loop lst k keyfunc lo mid \<longrightarrow> keyfunc (lst ! j) < k) \<and>
         (\<forall>j. key_bisect_left_loop lst k keyfunc lo mid \<le> j \<and> j < mid \<longrightarrow> k \<le> keyfunc (lst ! j))"
      proof -
        have "lo \<le> mid" "mid \<le> length lst" using mid "1.prems"(3) by simp_all
        from "1.IH"(2) [OF True mid_def ge "1.prems"(1) this] show ?thesis .
      qed
      have high: "k \<le> keyfunc (lst ! j)" if "mid \<le> j" "j < hi" for j
      proof -
        have "j < length lst" using that "1.prems"(3) by simp
        from mono [OF that(1) this] ge show ?thesis by linarith
      qed
      show ?thesis
        unfolding eq
      proof (intro conjI allI impI)
        show "lo \<le> key_bisect_left_loop lst k keyfunc lo mid"
          using ih by blast
      next
        show "key_bisect_left_loop lst k keyfunc lo mid \<le> hi"
          using ih mid by linarith
      next
        fix j
        assume "lo \<le> j \<and> j < key_bisect_left_loop lst k keyfunc lo mid"
        with ih show "keyfunc (lst ! j) < k" by blast
      next
        fix j
        assume j: "key_bisect_left_loop lst k keyfunc lo mid \<le> j \<and> j < hi"
        show "k \<le> keyfunc (lst ! j)"
        proof (cases "j < mid")
          case True
          with j ih show ?thesis by blast
        next
          case False
          then have "mid \<le> j" by simp
          with j high show ?thesis by blast
        qed
      qed
    qed
  qed
qed

lemma key_bisect_insort_left_sorted:
  assumes "sorted (map keyfunc lst)"
  shows "sorted (map keyfunc (key_bisect_insort_left lst item keyfunc)) \<and>
         set (key_bisect_insort_left lst item keyfunc) = insert item (set lst)"
proof -
  let ?pos = "key_bisect_left_loop lst (keyfunc item) keyfunc 0 (length lst)"
  from key_bisect_left_loop_correct [OF assms, of 0 "length lst" "keyfunc item"]
  have pl: "?pos \<le> length lst"
    and below: "\<And>j. j < ?pos \<Longrightarrow> keyfunc (lst ! j) < keyfunc item"
    and above: "\<And>j. ?pos \<le> j \<Longrightarrow> j < length lst \<Longrightarrow> keyfunc item \<le> keyfunc (lst ! j)"
    by simp_all
  have t: "\<forall>x \<in> set (take ?pos lst). keyfunc x \<le> keyfunc item"
  proof
    fix x assume "x \<in> set (take ?pos lst)"
    then obtain j where "j < length (take ?pos lst)" "take ?pos lst ! j = x"
      unfolding in_set_conv_nth by blast
    then have "j < ?pos" "x = lst ! j"
      by simp_all
    with below [of j] show "keyfunc x \<le> keyfunc item" by simp
  qed
  have d: "\<forall>x \<in> set (drop ?pos lst). keyfunc item \<le> keyfunc x"
  proof
    fix x assume "x \<in> set (drop ?pos lst)"
    then obtain j where "j < length (drop ?pos lst)" "drop ?pos lst ! j = x"
      unfolding in_set_conv_nth by blast
    then have "?pos + j < length lst" "x = lst ! (?pos + j)"
      using pl by simp_all
    with above [of "?pos + j"] show "keyfunc item \<le> keyfunc x" by simp
  qed
  have split: "lst = take ?pos lst @ drop ?pos lst" by simp
  have st: "sorted (map keyfunc (take ?pos lst))" and sd: "sorted (map keyfunc (drop ?pos lst))"
    using assms by (simp_all add: sorted_wrt_take sorted_wrt_drop take_map [symmetric] drop_map [symmetric])
  have cross: "\<forall>x \<in> set (take ?pos lst). \<forall>y \<in> set (drop ?pos lst). keyfunc x \<le> keyfunc y"
  proof (intro ballI)
    fix x y
    assume "x \<in> set (take ?pos lst)" and "y \<in> set (drop ?pos lst)"
    with t d have "keyfunc x \<le> keyfunc item" and "keyfunc item \<le> keyfunc y"
      by blast+
    then show "keyfunc x \<le> keyfunc y" by (rule order_trans)
  qed
  have s1: "sorted (map keyfunc (take ?pos lst @ item # drop ?pos lst))"
    using st sd t d cross by (simp add: sorted_append)
  have u: "set (take ?pos lst) \<union> set (drop ?pos lst) = set lst"
    by (simp add: set_append [symmetric] del: set_append)
  have s2: "set (take ?pos lst @ item # drop ?pos lst) = insert item (set lst)"
    unfolding u [symmetric] by simp
  show ?thesis
    unfolding key_bisect_insort_left_def Let_def using s1 s2 by (rule conjI)
qed

text \<open>The constructor, \<^verbatim>\<open>append\<close> and \<^verbatim>\<open>_rebase\<close> keep the sorted list ordered by \<^verbatim>\<open>vaddr\<close>.\<close>

lemma sorted_by_vaddr_init: "sorted_by_vaddr h (Regions_init h lst)"
  by (cases lst) (simp_all add: sorted_by_vaddr_def Regions_init_def Regions_make_sorted_def)

lemma sorted_by_vaddr_append:
  "sorted_by_vaddr h rs \<Longrightarrow> sorted_by_vaddr h (Regions_append h rs r)"
proof -
  assume a: "sorted_by_vaddr h rs"
  then have "sorted (map (\<lambda>r. vaddr (h r)) (priv_sorted_list rs))"
    by (simp add: sorted_by_vaddr_def)
  from key_bisect_insort_left_sorted [OF this, of r]
  have "sorted (map (\<lambda>r. vaddr (h r)) (priv_sorted_list (Regions_append h rs r)))"
    and "set (priv_sorted_list (Regions_append h rs r)) = insert r (set (priv_sorted_list rs))"
    by (simp_all add: Regions_append_def)
  moreover have "set (priv_list (Regions_append h rs r)) = insert r (set (priv_list rs))"
    by (simp add: Regions_append_def)
  ultimately show ?thesis
    using a by (simp add: sorted_by_vaddr_def)
qed

lemma sorted_by_vaddr_rebase:
  assumes "sorted_by_vaddr h rs" and "distinct (priv_list rs)"
  shows "sorted_by_vaddr (Regions_rebase h rs d) rs"
proof -
  have "vaddr (Regions_rebase h rs d x) = vaddr (h x) + d" if "x \<in> set (priv_sorted_list rs)" for x
    using that assms by (simp add: Regions_rebase_apply count_list_distinct sorted_by_vaddr_def)
  then have eq: "map (\<lambda>r. vaddr (Regions_rebase h rs d r)) (priv_sorted_list rs) =
             map (\<lambda>r. vaddr (h r) + d) (priv_sorted_list rs)"
    by simp
  have s: "sorted (map (\<lambda>r. vaddr (h r) + d) (priv_sorted_list rs))"
    using assms(1) by (simp add: sorted_by_vaddr_def sorted_map)
  have "sorted (map (\<lambda>r. vaddr (Regions_rebase h rs d r)) (priv_sorted_list rs))"
    unfolding eq by (rule s)
  with assms(1) show ?thesis
    by (simp add: sorted_by_vaddr_def)
qed

lemma non_overlappingD:
  "non_overlapping h rs \<Longrightarrow> r \<in> set (priv_list rs) \<Longrightarrow> q \<in> set (priv_list rs) \<Longrightarrow> r \<noteq> q \<Longrightarrow>
   vaddr (h r) + memsize (h r) \<le> vaddr (h q) \<or> vaddr (h q) + memsize (h q) \<le> vaddr (h r)"
  unfolding non_overlapping_def list_all_iff by blast

lemma containing_unique:
  assumes "non_overlapping h rs" and "r \<in> set (priv_list rs)" and "q \<in> set (priv_list rs)"
    and "Region_contains_addr (h r) a" and "Region_contains_addr (h q) a"
  shows "r = q"
proof (rule ccontr)
  assume "r \<noteq> q"
  from non_overlappingD [OF assms(1-3) this] assms(4,5) show False
    by (auto simp: Region_contains_addr_def)
qed

lemma ends_sorted:
  assumes "sorted_by_vaddr h rs" and "non_overlapping h rs" and "nonempty_regions h rs"
  shows "sorted (map (\<lambda>r. vaddr (h r) + memsize (h r)) (priv_sorted_list rs))"
proof -
  have s: "sorted_wrt (\<lambda>x y. vaddr (h x) \<le> vaddr (h y)) (priv_sorted_list rs)"
    using assms(1) by (simp add: sorted_by_vaddr_def sorted_map)
  have "sorted_wrt (\<lambda>x y. vaddr (h x) + memsize (h x) \<le> vaddr (h y) + memsize (h y)) (priv_sorted_list rs)"
  proof (rule sorted_wrt_mono_rel [OF _ s])
    fix x y
    assume x: "x \<in> set (priv_sorted_list rs)" and y: "y \<in> set (priv_sorted_list rs)"
      and le: "vaddr (h x) \<le> vaddr (h y)"
    from x y assms(1) have xy: "x \<in> set (priv_list rs)" "y \<in> set (priv_list rs)"
      by (simp_all add: sorted_by_vaddr_def)
    with assms(3) have pos: "0 < memsize (h x)" "0 < memsize (h y)"
      by (simp_all add: nonempty_regions_def list_all_iff)
    show "vaddr (h x) + memsize (h x) \<le> vaddr (h y) + memsize (h y)"
    proof (cases "x = y")
      case True
      then show ?thesis by simp
    next
      case False
      from non_overlappingD [OF assms(2) xy False] le pos show ?thesis by auto
    qed
  qed
  then show ?thesis by (simp add: sorted_map)
qed

text \<open>
  When no region is empty, the order by \<^verbatim>\<open>vaddr\<close> is also the order by end address, and
  the lookup agrees with the linear scan.
\<close>

lemma find_region_containing_nonempty:
  assumes "sorted_by_vaddr h rs" and "non_overlapping h rs" and "nonempty_regions h rs"
  shows "Regions_find_region_containing h rs a = linear_scan h rs a"
proof -
  let ?xs = "priv_sorted_list rs"
  let ?E = "\<lambda>r. vaddr (h r) + memsize (h r)"
  let ?pos = "key_bisect_find ?xs a ?E"
  have sets: "set ?xs = set (priv_list rs)"
    using assms(1) by (simp add: sorted_by_vaddr_def)
  have vs: "sorted (map (\<lambda>r. vaddr (h r)) ?xs)"
    using assms(1) by (simp add: sorted_by_vaddr_def)
  from key_bisect_find_loop_correct [OF ends_sorted [OF assms], of 0 "length ?xs" a]
  have below: "\<And>j. j < ?pos \<Longrightarrow> ?E (?xs ! j) \<le> a"
    and above: "\<And>j. ?pos \<le> j \<Longrightarrow> j < length ?xs \<Longrightarrow> a < ?E (?xs ! j)"
    by (simp_all add: key_bisect_find_def)
  show ?thesis
  proof (cases "\<exists>r \<in> set (priv_list rs). Region_contains_addr (h r) a")
    case True
    then obtain r where r: "r \<in> set (priv_list rs)" "Region_contains_addr (h r) a"
      by blast
    from r(1) sets have "r \<in> set ?xs" by simp
    then obtain i where i: "i < length ?xs" "?xs ! i = r"
      unfolding in_set_conv_nth by blast
    have "\<not> i < ?pos"
      using below [of i] i r(2) by (auto simp: Region_contains_addr_def)
    then have pi: "?pos \<le> i" by simp
    with i have pl: "?pos < length ?xs" by simp
    have "vaddr (h (?xs ! ?pos)) \<le> vaddr (h (?xs ! i))"
      using sorted_nth_mono [OF vs pi] i(1) pl by simp
    with above [OF le_refl pl] i(2) r(2) have c: "Region_contains_addr (h (?xs ! ?pos)) a"
      by (simp add: Region_contains_addr_def)
    have m: "?xs ! ?pos \<in> set (priv_list rs)"
      using pl sets nth_mem by blast
    have f: "Regions_find_region_containing h rs a = Some (?xs ! ?pos)"
      using pl c by (simp add: Regions_find_region_containing_def Let_def)
    from True obtain q where q: "linear_scan h rs a = Some q"
      by (cases "linear_scan h rs a") (auto simp: linear_scan_def find_None_iff)
    then have "q \<in> set (priv_list rs)" "Region_contains_addr (h q) a"
      by (auto simp: linear_scan_def find_Some_iff)
    from containing_unique [OF assms(2) m this(1) c this(2)] f q show ?thesis by simp
  next
    case False
    then have "linear_scan h rs a = None"
      by (simp add: linear_scan_def find_None_iff)
    moreover have "Regions_find_region_containing h rs a = None"
    proof (cases "?pos < length ?xs")
      case True
      then have "?xs ! ?pos \<in> set (priv_list rs)"
        using sets nth_mem by blast
      with False have "\<not> Region_contains_addr (h (?xs ! ?pos)) a" by blast
      then show ?thesis
        by (simp add: Regions_find_region_containing_def Let_def)
    next
      case False
      then show ?thesis
        by (simp add: Regions_find_region_containing_def Let_def)
    qed
    ultimately show ?thesis by simp
  qed
qed

text \<open>
  C5 on an image with an empty section at the address where \<^verbatim>\<open>.text\<close> starts. The
  sections do not overlap and \<^verbatim>\<open>.text\<close> contains \<^verbatim>\<open>0x1050\<close>, which a linear scan finds;
  \<^verbatim>\<open>find_region_containing\<close> returns \<^verbatim>\<open>None\<close>. The sorted list is ordered by \<^verbatim>\<open>vaddr\<close>
  (\<^verbatim>\<open>.text\<close>, the empty section, \<^verbatim>\<open>.data\<close>) and bisected by \<^verbatim>\<open>vaddr + memsize\<close>
  (\<^verbatim>\<open>0x1100\<close>, \<^verbatim>\<open>0x1000\<close>, \<^verbatim>\<open>0x2100\<close>): the first probe is the empty section in the
  middle, whose end is not above the address, and it discards \<^verbatim>\<open>.text\<close> to its left.
\<close>

theorem find_region_containing_misses:
  "sorted_by_vaddr (regions (run empty_section_run)) (sections (backends (run empty_section_run) 0)) \<and>
   non_overlapping (regions (run empty_section_run)) (sections (backends (run empty_section_run) 0)) \<and>
   Region_contains_addr (regions (run empty_section_run) 0) 0x1050 \<and>
   linear_scan (regions (run empty_section_run)) (sections (backends (run empty_section_run) 0)) 0x1050 = Some 0 \<and>
   Regions_find_region_containing (regions (run empty_section_run))
      (sections (backends (run empty_section_run) 0)) 0x1050 = None"
  by (simp add: empty_section_run_def run_def step_def Backend_new_def Region_new_def
      set_sections_def init_state_def Backend_init_def Regions_init_def Regions_make_sorted_def
      sections_def non_overlapping_def linear_scan_def Regions_find_region_containing_def
      key_bisect_find_def key_bisect_find_loop.simps sorted_by_vaddr_def
      Region_contains_addr_def Region_init_def Section_init_def Let_def)

text \<open>The same when the sections are appended one by one, the empty one first.\<close>

lemma find_region_containing_misses_append:
  "priv_sorted_list (sections (backends (run empty_section_append_run) 0)) = [1, 0, 2] \<and>
   non_overlapping (regions (run empty_section_append_run)) (sections (backends (run empty_section_append_run) 0)) \<and>
   linear_scan (regions (run empty_section_append_run)) (sections (backends (run empty_section_append_run) 0)) 0x1050 = Some 1 \<and>
   Regions_find_region_containing (regions (run empty_section_append_run))
      (sections (backends (run empty_section_append_run) 0)) 0x1050 = None"
  by (simp add: empty_section_append_run_def run_def step_def Backend_new_def Region_new_def
      append_section_def init_state_def Backend_init_def Regions_init_def Regions_append_def
      key_bisect_insort_left_def key_bisect_left_loop.simps
      sections_def non_overlapping_def linear_scan_def Regions_find_region_containing_def
      key_bisect_find_def key_bisect_find_loop.simps
      Region_contains_addr_def Region_init_def Section_init_def Let_def)

end
